theory Spec2Isabelle
  imports Complex_Main
begin

section \<open>Values\<close>

text \<open>
  The rolls, the pin count of a strike, the number of frames and the scores are JavaScript
  numbers, that is doubles. The model has the integer-valued ones, as \<open>int\<close>: a roll
  with a fraction is outside it. A roll slot of a frame holds a number or \<open>null\<close>
  ("this roll hasn't happened yet"): \<open>int option\<close>, with \<open>None\<close> for \<open>null\<close>. An
  optional constructor parameter is an \<open>option\<close> too, with \<open>None\<close> for
  \<open>undefined\<close>.
\<close>

text \<open>\<open>null\<close> counts as 0 in a sum or a difference of numbers.\<close>

fun toNumber :: "int option \<Rightarrow> int" where
  "toNumber None = 0"
| "toNumber (Some n) = n"

text \<open>
  A double has a significand of 53 bits. Every integer from \<open>-2^53\<close> to \<open>2^53\<close> is a
  double; beyond, the doubles are the multiples of \<open>ulp\<close>, a power of 2 that doubles
  with every further bit. \<open>fl x\<close> is the double nearest to the integer \<open>x\<close>, the one
  with the even significand when two are equally near: the result of an operation whose
  exact result is \<open>x\<close>, and the number JavaScript reads when \<open>x\<close> is written out.
  (Beyond \<open>2^1024\<close> a double is an infinity; the model has no infinite score.)
\<close>

fun bits :: "int \<Rightarrow> nat" where
  "bits n = (if n \<le> 0 then 0 else Suc (bits (n div 2)))"

declare bits.simps [simp del]

definition ulp :: "int \<Rightarrow> int" where
  "ulp a = 2 ^ (bits a - 53)"

definition roundMag :: "int \<Rightarrow> int" where
  "roundMag a =
    (let q = ulp a; m = a div q; r = a mod q
     in if 2 * r < q \<or> (2 * r = q \<and> even m) then m * q else (m + 1) * q)"

definition fl :: "int \<Rightarrow> int" where
  "fl x = (if - (2 ^ 53) \<le> x \<and> x \<le> 2 ^ 53 then x
           else if x < 0 then - roundMag (- x) else roundMag x)"

text \<open>The operators \<open>+\<close> and \<open>-\<close> on numbers.\<close>

definition numAdd :: "int \<Rightarrow> int \<Rightarrow> int" where
  "numAdd a b = fl (a + b)"

definition numSub :: "int \<Rightarrow> int \<Rightarrow> int" where
  "numSub a b = fl (a - b)"

text \<open>
  \<open>Number.prototype.toString\<close> on an integer below \<open>10^21\<close> in absolute value: its
  decimal digits, with a sign. (From \<open>10^21\<close> on JavaScript writes an exponent.)
\<close>

fun digits :: "nat \<Rightarrow> string" where
  "digits n =
     (if n < 10 then [''0123456789'' ! n]
      else digits (n div 10) @ [''0123456789'' ! (n mod 10)])"

declare digits.simps [simp del]

definition toString :: "int \<Rightarrow> string" where
  "toString i = (if i < 0 then CHR ''-'' # digits (nat (- i)) else digits (nat i))"

section \<open>ScoringFrame\<close>

record ScoringFrame =
  isLastFrame :: bool
  supportingScore :: int
  valueForStrike :: int
  roll1 :: "int option"
  roll2 :: "int option"
  roll3 :: "int option"
  scoreForFrame :: int
  runningScore :: int
  isFirstRollStrike :: bool
  isSecondRollSpare :: bool
  isSecondRollStrike :: bool
  isThirdRollSpare :: bool
  isThirdRollStrike :: bool
  isComplete :: bool
  remainingPins :: int

text \<open>
  The constructor. Its roll parameters are numbers or \<open>null\<close>, so the coerced fields
  \<open>this.roll1\<close>, \<open>this.roll2\<close>, \<open>this.roll3\<close> are the parameters themselves, and
  the tests \<open>roll2 == null\<close>, \<open>roll3 == null\<close> on the raw parameters read the same
  values. The conditional chains keep the order of the source. \<open>a & b\<close> on two booleans
  is truthy exactly when both are true. The sums are taken from the left, as
  \<open>this.roll1 + this.roll2 + this.roll3\<close> is.
\<close>

definition new_ScoringFrame ::
  "int option \<Rightarrow> int option \<Rightarrow> int option \<Rightarrow> bool \<Rightarrow> int \<Rightarrow> int \<Rightarrow> ScoringFrame" where
  "new_ScoringFrame r1 r2 r3 isLast supporting vfs =
    (let score = numAdd (numAdd (toNumber r1) (toNumber r2)) (toNumber r3);
         running = numAdd supporting score;
         firstStrike = (r1 = Some vfs);
         secondSpare = (r1 \<noteq> None \<and> \<not> firstStrike \<and> r2 \<noteq> None
                        \<and> numAdd (toNumber r1) (toNumber r2) = vfs);
         secondStrike = (firstStrike \<and> r2 = Some vfs);
         thirdSpare = (firstStrike \<and> r2 \<noteq> None \<and> r3 \<noteq> None \<and> \<not> secondStrike
                        \<and> numAdd (toNumber r2) (toNumber r3) = vfs);
         thirdStrike = (r3 = Some vfs \<and> \<not> thirdSpare);
         complete =
           (if firstStrike \<and> r2 \<noteq> None \<and> r3 \<noteq> None then True
            else if isLast \<and> secondStrike \<and> r3 \<noteq> None then True
            else if secondSpare \<and> r3 \<noteq> None then True
            else if \<not> firstStrike \<and> \<not> secondSpare \<and> r1 \<noteq> None \<and> r2 \<noteq> None then True
            else False);
         remaining =
           (if isLast \<and> complete then 0
            else if r1 = None then vfs
            else if isLast \<and> secondStrike \<and> r3 = None then vfs
            else if firstStrike \<and> r2 = None then vfs
            else if secondSpare \<and> r3 = None then vfs
            else if firstStrike \<and> r3 = None then numSub vfs (toNumber r2)
            else numSub vfs (toNumber r1))
     in \<lparr> isLastFrame = isLast, supportingScore = supporting, valueForStrike = vfs,
          roll1 = r1, roll2 = r2, roll3 = r3,
          scoreForFrame = score, runningScore = running,
          isFirstRollStrike = firstStrike, isSecondRollSpare = secondSpare,
          isSecondRollStrike = secondStrike, isThirdRollSpare = thirdSpare,
          isThirdRollStrike = thirdStrike, isComplete = complete,
          remainingPins = remaining \<rparr>)"

section \<open>ScoringFrameList\<close>

text \<open>
  One iteration of the \<open>while\<close> loop, at \<open>rollIndex < rolls.length\<close>: the frame that
  is pushed and the value of \<open>rollIndex\<close> at the end of the iteration. The loop is left
  by setting \<open>rollIndex\<close> to \<open>rollCount + 1\<close>.
\<close>

definition frameAt ::
  "int \<Rightarrow> int \<Rightarrow> int list \<Rightarrow> nat \<Rightarrow> ScoringFrame list \<Rightarrow> ScoringFrame \<times> nat" where
  "frameAt vfs nof rolls rollIndex frames =
    (let rollCount = length rolls;
         roll = rolls ! rollIndex;
         rollNext = (if rollIndex + 1 < rollCount then Some (rolls ! (rollIndex + 1)) else None);
         rollThird = (if rollIndex + 2 < rollCount then Some (rolls ! (rollIndex + 2)) else None);
         supporting = (if length frames > 0 then runningScore (last frames) else 0);
         isLast = (int (length frames) = numSub nof 1);
         (sf, next) =
           (if roll = vfs then
              (new_ScoringFrame (Some roll) rollNext rollThird isLast supporting vfs,
               if isLast then rollCount + 1 else rollIndex + 1)
            else if rollNext \<noteq> None \<and> numAdd roll (toNumber rollNext) = vfs then
              (new_ScoringFrame (Some roll) rollNext rollThird isLast supporting vfs,
               rollIndex + 2)
            else if rollNext \<noteq> None \<and> numAdd roll (toNumber rollNext) < vfs then
              (new_ScoringFrame (Some roll) rollNext None isLast supporting vfs,
               rollIndex + 2)
            else
              (new_ScoringFrame (Some roll) None None isLast supporting vfs,
               rollIndex + 1))
     in (sf, if isLast \<and> isComplete sf then rollCount + 1 else next))"

function scanRolls ::
  "int \<Rightarrow> int \<Rightarrow> int list \<Rightarrow> nat \<Rightarrow> ScoringFrame list \<Rightarrow> ScoringFrame list" where
  "scanRolls vfs nof rolls rollIndex frames =
    (if rollIndex < length rolls then
       (case frameAt vfs nof rolls rollIndex frames of
          (sf, next) \<Rightarrow> scanRolls vfs nof rolls next (frames @ [sf]))
     else frames)"
  by pat_completeness auto
termination
  by (relation "measure (\<lambda>(vfs, nof, rolls, rollIndex, frames). length rolls + 1 - rollIndex)")
     (auto simp: frameAt_def Let_def split: if_splits)

declare scanRolls.simps [simp del]

record ScoringFrameList =
  valueForStrike :: int
  numberOfFrames :: int
  scoringFrames :: "ScoringFrame list"
  remainingPins :: int

definition new_ScoringFrameList :: "int list \<Rightarrow> int \<Rightarrow> int \<Rightarrow> ScoringFrameList" where
  "new_ScoringFrameList rolls vfs nof =
    (let frames = scanRolls vfs nof rolls 0 [];
         noFramesYet = (length frames = 0);
         inFinalFrame = (int (length frames) = nof);
         remaining =
           (if noFramesYet then vfs
            else if inFinalFrame \<and> isComplete (last frames) then 0
            else if isComplete (last frames) then vfs
            else ScoringFrame.remainingPins (last frames))
     in \<lparr> valueForStrike = vfs, numberOfFrames = nof, scoringFrames = frames,
          remainingPins = remaining \<rparr>)"

section \<open>DisplayFrame and DisplayFrameList\<close>

record DisplayFrame =
  scoringFrame :: ScoringFrame
  strikeDisplay :: string
  spareDisplay :: string
  zeroDisplay :: string
  slot1 :: string
  slot2 :: string
  slot3 :: string
  score :: string

text \<open>A display character that is not supplied (\<open>undefined\<close>) takes its default.\<close>

fun orDefault :: "string option \<Rightarrow> string \<Rightarrow> string" where
  "orDefault None d = d"
| "orDefault (Some s) d = s"

definition new_DisplayFrame ::
  "ScoringFrame \<Rightarrow> string option \<Rightarrow> string option \<Rightarrow> string option \<Rightarrow> DisplayFrame" where
  "new_DisplayFrame sf strikeD spareD zeroD =
    (let strikeDisp = orDefault strikeD ''X'';
         spareDisp = orDefault spareD ''/'';
         zeroDisp = orDefault zeroD ''-'';
         validRoll1 = (roll1 sf \<noteq> None);
         validRoll2 = (roll2 sf \<noteq> None);
         validRoll3 = (roll3 sf \<noteq> None);
         (s1, s2, s3) =
           (if \<not> isLastFrame sf then
              (if isFirstRollStrike sf then ''''
               else if validRoll1 \<and> roll1 sf = Some 0 then zeroDisp
               else if validRoll1 then toString (toNumber (roll1 sf))
               else '''',
               if isFirstRollStrike sf then strikeDisp
               else if isSecondRollSpare sf then spareDisp
               else if validRoll2 \<and> roll2 sf = Some 0 then zeroDisp
               else if validRoll2 then toString (toNumber (roll2 sf))
               else '''',
               '''')
            else
              (if isFirstRollStrike sf then strikeDisp
               else if validRoll1 \<and> roll1 sf = Some 0 then zeroDisp
               else if validRoll1 then toString (toNumber (roll1 sf))
               else '''',
               if isSecondRollStrike sf then strikeDisp
               else if isSecondRollSpare sf then spareDisp
               else if validRoll2 \<and> roll2 sf = Some 0 then zeroDisp
               else if validRoll2 then toString (toNumber (roll2 sf))
               else '''',
               if isThirdRollStrike sf then strikeDisp
               else if isThirdRollSpare sf then spareDisp
               else if validRoll3 \<and> roll3 sf = Some 0 then zeroDisp
               else if validRoll3 then toString (toNumber (roll3 sf))
               else ''''))
     in \<lparr> scoringFrame = sf, strikeDisplay = strikeDisp, spareDisplay = spareDisp,
          zeroDisplay = zeroDisp, slot1 = s1, slot2 = s2, slot3 = s3,
          score = (if \<not> isComplete sf then '''' else toString (runningScore sf)) \<rparr>)"

record DisplayFrameList =
  scoringFramesList :: ScoringFrameList
  displayFrames :: "DisplayFrame list"
  strikeDisplay :: string
  spareDisplay :: string
  zeroDisplay :: string

text \<open>
  The first loop projects the scoring frames; the second one fills the scorecard with
  empty frames, for \<open>i\<close> from the number of scoring frames while \<open>i < numberOfFrames\<close>.
\<close>

definition new_DisplayFrameList ::
  "ScoringFrameList \<Rightarrow> string option \<Rightarrow> string option \<Rightarrow> string option \<Rightarrow> DisplayFrameList" where
  "new_DisplayFrameList sfl strikeD spareD zeroD =
    (let frames = scoringFrames sfl;
         shown = map (\<lambda>sf. new_DisplayFrame sf strikeD spareD zeroD) frames;
         filler = map (\<lambda>i. new_DisplayFrame
                         (new_ScoringFrame None None None
                            (int i = numSub (ScoringFrameList.numberOfFrames sfl) 1) 0
                            (ScoringFrameList.valueForStrike sfl))
                         strikeD spareD zeroD)
                      [length frames ..< nat (ScoringFrameList.numberOfFrames sfl)]
     in \<lparr> scoringFramesList = sfl, displayFrames = shown @ filler,
          strikeDisplay = orDefault strikeD ''X'', spareDisplay = orDefault spareD ''/'',
          zeroDisplay = orDefault zeroD ''-'' \<rparr>)"

section \<open>JavaScript values\<close>

text \<open>
  \<open>addRoll\<close> and the setter of the random roller receive any JavaScript value. A finite
  number is modelled by the rational it denotes, and \<open>NaN\<close> and the two infinities are
  numbers too: \<open>typeof\<close> gives \<open>'number'\<close> for them. \<open>JObject\<close> is any object.
\<close>

datatype jsvalue =
  JUndefined | JNull | JBoolean bool | JString string | JObject
| JNaN | JInfinity bool | JFinite rat

text \<open>
  The numbers of a game: \<open>NaN\<close>, an infinity (\<open>Infinity True\<close> is the negative one) or
  an integer.
\<close>

datatype jsnum = NaN | Infinity bool | Num int

text \<open>
  \<open>Number(s)\<close> for a string of ASCII characters. White space at both ends is dropped.
  What is left is 0 when it is empty, an infinity when it is \<open>Infinity\<close> with or without
  a sign, and the integer it writes when it is at most 15 decimal digits with or without
  a sign. It is \<open>NaN\<close> when it starts (after the sign) with anything but a digit, a
  point or \<open>Infinity\<close>. The result is \<open>None\<close> for the strings the model does not cover:
  the other numeric literals (with a point, an exponent, a radix prefix or more digits,
  and what only starts like one) and the strings with other than ASCII characters.
\<close>

definition isWhiteSpace :: "char \<Rightarrow> bool" where
  "isWhiteSpace c = (c \<in> set [CHR 0x09, CHR 0x0A, CHR 0x0B, CHR 0x0C, CHR 0x0D, CHR '' ''])"

definition isDigit :: "char \<Rightarrow> bool" where
  "isDigit c = (c \<in> set ''0123456789'')"

definition digitValue :: "char \<Rightarrow> int" where
  "digitValue c = int (length (takeWhile (\<lambda>d. d \<noteq> c) ''0123456789''))"

definition trimString :: "string \<Rightarrow> string" where
  "trimString s = rev (dropWhile isWhiteSpace (rev (dropWhile isWhiteSpace s)))"

definition unsignedToNumber :: "bool \<Rightarrow> string \<Rightarrow> jsnum option" where
  "unsignedToNumber negative s =
    (if s = ''Infinity'' then Some (Infinity negative)
     else if s \<noteq> [] \<and> list_all isDigit s then
       (if length s \<le> 15
        then Some (Num ((if negative then - 1 else 1) * foldl (\<lambda>n c. 10 * n + digitValue c) 0 s))
        else None)
     else if s \<noteq> [] \<and> (isDigit (hd s) \<or> hd s = CHR ''.'') then None
     else Some NaN)"

definition stringToNumber :: "string \<Rightarrow> jsnum option" where
  "stringToNumber s =
    (if \<not> list_all (\<lambda>c. of_char c < (128 :: nat)) s then None
     else case trimString s of
       [] \<Rightarrow> Some (Num 0)
     | c # cs \<Rightarrow>
         if c = CHR ''-'' then unsignedToNumber True cs
         else if c = CHR ''+'' then unsignedToNumber False cs
         else unsignedToNumber False (c # cs))"

text \<open>
  \<open>Number(value)\<close>. It is \<open>None\<close> for the values the model does not cover: a number
  with a fraction, an object (its number is what its own methods make it) and the
  strings above.
\<close>

fun Number :: "jsvalue \<Rightarrow> jsnum option" where
  "Number JUndefined = Some NaN"
| "Number JNull = Some (Num 0)"
| "Number (JBoolean b) = Some (Num (if b then 1 else 0))"
| "Number (JString s) = stringToNumber s"
| "Number JObject = None"
| "Number JNaN = Some NaN"
| "Number (JInfinity negative) = Some (Infinity negative)"
| "Number (JFinite q) = (if q = of_int \<lfloor>q\<rfloor> then Some (Num \<lfloor>q\<rfloor>) else None)"

section \<open>Game\<close>

record Game =
  valueForStrike :: int
  numberOfFrames :: int
  strikeDisplay :: string
  spareDisplay :: string
  zeroDisplay :: string
  rolls :: "int list"
  remainingPins :: int
  isGameOver :: bool

text \<open>
  The constructor. The two numbers it is given are doubles: an integer of the model that
  no double has stands for the double it is read as.
\<close>

definition new_Game ::
  "int option \<Rightarrow> int option \<Rightarrow> string option \<Rightarrow> string option \<Rightarrow> string option \<Rightarrow> Game" where
  "new_Game vfs nof strikeD spareD zeroD =
    \<lparr> valueForStrike = (case vfs of None \<Rightarrow> 10 | Some v \<Rightarrow> fl v),
      numberOfFrames = (case nof of None \<Rightarrow> 10 | Some n \<Rightarrow> fl n),
      strikeDisplay = orDefault strikeD ''X'',
      spareDisplay = orDefault spareD ''/'',
      zeroDisplay = orDefault zeroD ''-'',
      rolls = [],
      remainingPins = (case vfs of None \<Rightarrow> 10 | Some v \<Rightarrow> fl v),
      isGameOver = False \<rparr>"

text \<open>
  \<open>processRollsToScoringFrames\<close> returns the scoring frame list and updates the game.
\<close>

definition processRollsToScoringFrames :: "Game \<Rightarrow> ScoringFrameList \<times> Game" where
  "processRollsToScoringFrames g =
    (let sfl = new_ScoringFrameList (rolls g) (Game.valueForStrike g) (Game.numberOfFrames g);
         g1 = g\<lparr> remainingPins := ScoringFrameList.remainingPins sfl \<rparr>;
         g2 = g1\<lparr> isGameOver := (Game.remainingPins g1 = 0) \<rparr>
     in (sfl, g2))"

definition processRolls :: "Game \<Rightarrow> DisplayFrameList \<times> Game" where
  "processRolls g =
    (case processRollsToScoringFrames g of
       (sfl, g') \<Rightarrow>
         (new_DisplayFrameList sfl (Some (Game.strikeDisplay g')) (Some (Game.spareDisplay g'))
            (Some (Game.zeroDisplay g')), g'))"

definition newGame :: "Game \<Rightarrow> Game" where
  "newGame g = g\<lparr> rolls := [], isGameOver := False, remainingPins := Game.valueForStrike g \<rparr>"

text \<open>
  Each \<open>throw\<close> of \<open>addRoll\<close> is an error value; the spec calls all three InvalidRoll.
  The result of a call is what it returns or throws, with the game as it is after the
  call.

  \<open>addRollNumber g v\<close> is the call of \<open>addRoll\<close> on a value whose \<open>Number\<close> is
  \<open>v\<close>. No infinity is both at most the remaining pins and at least 0, and every
  comparison with \<open>NaN\<close> is false. An integer stands for the double it is read as, as
  in the constructor.
\<close>

datatype InvalidRoll = GameHasEnded | MustBeANumber | MustBeBetween int int

definition addRollNumber :: "Game \<Rightarrow> jsnum \<Rightarrow> (InvalidRoll + int) \<times> Game" where
  "addRollNumber g v =
    (if Game.remainingPins g = 0 then (Inl GameHasEnded, g)
     else case v of
       NaN \<Rightarrow> (Inl MustBeANumber, g)
     | Infinity negative \<Rightarrow> (Inl (MustBeBetween 0 (Game.remainingPins g)), g)
     | Num n \<Rightarrow>
         (let v = fl n
          in if v \<le> Game.remainingPins g \<and> v \<ge> 0 then
               (Inr v, snd (processRollsToScoringFrames (g\<lparr> rolls := rolls g @ [v] \<rparr>)))
             else (Inl (MustBeBetween 0 (Game.remainingPins g)), g)))"

text \<open>
  \<open>addRoll\<close> on a value. The game that has ended throws before the value is looked at.
  The result is \<open>None\<close> where the model does not cover the value.
\<close>

definition addRoll :: "Game \<Rightarrow> jsvalue \<Rightarrow> ((InvalidRoll + int) \<times> Game) option" where
  "addRoll g rollValue =
    (if Game.remainingPins g = 0 then Some (Inl GameHasEnded, g)
     else map_option (addRollNumber g) (Number rollValue))"

text \<open>
  A caller's session: a sequence of calls on one game. \<open>AddRoll v\<close> is a call of
  \<open>addRoll\<close> on a value whose \<open>Number\<close> is \<open>v\<close>. A call that throws is caught by the
  caller, who goes on with the game as it is.
\<close>

datatype call = AddRoll jsnum | NewGame | ProcessRolls

fun perform :: "Game \<Rightarrow> call \<Rightarrow> Game" where
  "perform g (AddRoll v) = snd (addRollNumber g v)"
| "perform g NewGame = newGame g"
| "perform g ProcessRolls = snd (processRolls g)"

definition session :: "Game \<Rightarrow> call list \<Rightarrow> Game" where
  "session g calls = foldl perform g calls"

section \<open>RandomRoller\<close>

text \<open>
  The setter of the ability level only compares its value with 0 and 1. Every comparison
  with \<open>NaN\<close> is false.
\<close>

fun typeofNumber :: "jsvalue \<Rightarrow> bool" where
  "typeofNumber JNaN = True"
| "typeofNumber (JInfinity negative) = True"
| "typeofNumber (JFinite q) = True"
| "typeofNumber v = False"

fun numLess :: "jsvalue \<Rightarrow> rat \<Rightarrow> bool" where
  "numLess (JFinite q) c = (q < c)"
| "numLess (JInfinity negative) c = negative"
| "numLess v c = False"

fun numGreater :: "jsvalue \<Rightarrow> rat \<Rightarrow> bool" where
  "numGreater (JFinite q) c = (q > c)"
| "numGreater (JInfinity negative) c = (\<not> negative)"
| "numGreater v c = False"

record RandomRoller =
  pctToHitRemainingPins :: jsvalue

datatype InvalidConfiguration = MustBeNumber | MustBeBetweenZeroAndOne

definition setPctToHitRemainingPins ::
  "RandomRoller \<Rightarrow> jsvalue \<Rightarrow> (InvalidConfiguration + unit) \<times> RandomRoller" where
  "setPctToHitRemainingPins r newValue =
    (if \<not> typeofNumber newValue then (Inl MustBeNumber, r)
     else if numLess newValue 0 \<or> numGreater newValue 1 then (Inl MustBeBetweenZeroAndOne, r)
     else (Inr (), r\<lparr> pctToHitRemainingPins := newValue \<rparr>))"

text \<open>
  The constructor assigns 0, then calls the setter with its parameter (0 when the
  parameter is not supplied); an error of the setter leaves the constructor.
\<close>

definition new_RandomRoller :: "jsvalue \<Rightarrow> InvalidConfiguration + RandomRoller" where
  "new_RandomRoller pct =
    (case setPctToHitRemainingPins \<lparr> pctToHitRemainingPins = JFinite 0 \<rparr>
            (if pct = JUndefined then JFinite 0 else pct) of
       (Inl e, r) \<Rightarrow> Inl e
     | (Inr u, r) \<Rightarrow> Inr r)"

section \<open>The scan, by the rolls that remain\<close>

text \<open>
  The frames the loop of \<open>ScoringFrameList\<close> pushes from a point on depend on the number
  \<open>k\<close> of frames pushed so far, on the running score \<open>s\<close> of the last of them and on
  the rolls from \<open>rollIndex\<close> on. \<open>framesFrom\<close> is the loop in that form; lemma
  \<open>scanRolls_framesFrom\<close> proves that it is the loop.
\<close>

fun framesFrom :: "int \<Rightarrow> int \<Rightarrow> nat \<Rightarrow> int \<Rightarrow> int list \<Rightarrow> ScoringFrame list" where
  "framesFrom vfs nof k s [] = []"
| "framesFrom vfs nof k s [r] =
    [new_ScoringFrame (Some r) None None (int k = numSub nof 1) s vfs]"
| "framesFrom vfs nof k s (r # r2 # rest) =
    (if r = vfs then
       (let sf = new_ScoringFrame (Some r) (Some r2)
                   (case rest of [] \<Rightarrow> None | c # cs \<Rightarrow> Some c) (int k = numSub nof 1) s vfs
        in sf # (if int k = numSub nof 1 then []
                 else framesFrom vfs nof (Suc k) (runningScore sf) (r2 # rest)))
     else if numAdd r r2 = vfs then
       (let sf = new_ScoringFrame (Some r) (Some r2)
                   (case rest of [] \<Rightarrow> None | c # cs \<Rightarrow> Some c) (int k = numSub nof 1) s vfs
        in sf # (if int k = numSub nof 1 then []
                 else framesFrom vfs nof (Suc k) (runningScore sf) rest))
     else if numAdd r r2 < vfs then
       (let sf = new_ScoringFrame (Some r) (Some r2) None (int k = numSub nof 1) s vfs
        in sf # (if int k = numSub nof 1 then []
                 else framesFrom vfs nof (Suc k) (runningScore sf) rest))
     else
       (let sf = new_ScoringFrame (Some r) None None (int k = numSub nof 1) s vfs
        in sf # framesFrom vfs nof (Suc k) (runningScore sf) (r2 # rest)))"

text \<open>The remaining pins of a frame list whose frames follow \<open>k\<close> earlier ones.\<close>

definition pinsOf :: "int \<Rightarrow> int \<Rightarrow> nat \<Rightarrow> ScoringFrame list \<Rightarrow> int" where
  "pinsOf vfs nof k fs =
    (if fs = [] then vfs
     else if int (k + length fs) = nof \<and> isComplete (last fs) then 0
     else if isComplete (last fs) then vfs
     else ScoringFrame.remainingPins (last fs))"

text \<open>
  The roll lists of a game, from a frame start after \<open>k\<close> frames: every roll is from
  0 to the pins that stand, and no roll follows the end of the game. The sums are the
  exact ones here. This is the invariant of the history of a \<open>Game\<close> whose numbers are
  small enough for its sums to be exact: lemma \<open>valid_snoc\<close> proves that a roll
  \<open>addRoll\<close> accepts keeps it there.
\<close>

fun valid :: "int \<Rightarrow> int \<Rightarrow> nat \<Rightarrow> int list \<Rightarrow> bool" where
  "valid vfs nof k [] = True"
| "valid vfs nof k [r] = (0 \<le> r \<and> r \<le> vfs)"
| "valid vfs nof k (r # r2 # rest) =
    (0 \<le> r \<and> r \<le> vfs \<and> 0 \<le> r2 \<and>
     (if r = vfs then
        (if int k = nof - 1 then
           r2 \<le> vfs \<and>
           (case rest of
              [] \<Rightarrow> True
            | r3 # further \<Rightarrow>
                further = [] \<and> 0 \<le> r3 \<and> (if r2 = vfs then r3 \<le> vfs else r2 + r3 \<le> vfs))
         else valid vfs nof (Suc k) (r2 # rest))
      else
        r + r2 \<le> vfs \<and>
        (if int k = nof - 1 then
           (if r + r2 = vfs then
              (case rest of [] \<Rightarrow> True | r3 # further \<Rightarrow> further = [] \<and> 0 \<le> r3 \<and> r3 \<le> vfs)
            else rest = [])
         else valid vfs nof (Suc k) rest)))"

text \<open>
  The invariant of a game with the configuration \<open>vfs\<close>, \<open>nof\<close> whose sums are exact:
  its history is valid and its remaining pins are those of its history.
\<close>

definition gameInv :: "int \<Rightarrow> int \<Rightarrow> Game \<Rightarrow> bool" where
  "gameInv vfs nof g =
    (Game.valueForStrike g = vfs \<and> Game.numberOfFrames g = nof
     \<and> valid vfs nof 0 (rolls g)
     \<and> Game.remainingPins g = pinsOf vfs nof 0 (framesFrom vfs nof 0 0 (rolls g)))"

text \<open>
  The invariant of a game of \<open>vfs\<close> pins, whatever the size of its numbers: every roll
  of its history and its remaining pins are from 0 to \<open>vfs\<close>, and its game-over flag
  says that no pins remain.
\<close>

definition rangeInv :: "int \<Rightarrow> Game \<Rightarrow> bool" where
  "rangeInv vfs g =
    (Game.valueForStrike g = vfs \<and> list_all (\<lambda>r. 0 \<le> r \<and> r \<le> vfs) (rolls g)
     \<and> 0 \<le> Game.remainingPins g \<and> Game.remainingPins g \<le> vfs
     \<and> isGameOver g = (Game.remainingPins g = 0))"

section \<open>The remaining pins, as C4 words them\<close>

text \<open>
  This definition follows the words of claim C4, not the source: the full pin count when
  the last frame is complete "but fewer than numberOfFrames frames exist". It is there to
  be compared with the value \<open>new_ScoringFrameList\<close> computes.
\<close>

definition remainingPins_as_claimed :: "int \<Rightarrow> int \<Rightarrow> ScoringFrame list \<Rightarrow> int" where
  "remainingPins_as_claimed vfs nof frames =
    (if frames = [] then vfs
     else if int (length frames) = nof \<and> isComplete (last frames) then 0
     else if isComplete (last frames) \<and> int (length frames) < nof then vfs
     else ScoringFrame.remainingPins (last frames))"

section \<open>Rounding to a double\<close>

lemma bits_bounds: "0 < n \<Longrightarrow> 2 ^ (bits n - 1) \<le> n \<and> n < 2 ^ bits n"
proof (induction n rule: bits.induct)
  case (1 n)
  show ?case
  proof (cases "n div 2 \<le> 0")
    case True
    with "1.prems" have "n = 1" by simp
    then show ?thesis by (simp add: bits.simps [of 1] bits.simps [of 0])
  next
    case False
    with "1.IH" "1.prems" have ih: "2 ^ (bits (n div 2) - 1) \<le> n div 2" "n div 2 < 2 ^ bits (n div 2)"
      by simp_all
    from False have b: "0 < bits (n div 2)" by (simp add: bits.simps [of "n div 2"])
    have bn: "bits n = Suc (bits (n div 2))" using "1.prems" by (simp add: bits.simps [of n])
    have "(2::int) * 2 ^ (bits (n div 2) - 1) = 2 ^ bits (n div 2)"
      using b by (cases "bits (n div 2)") simp_all
    with ih(1) have "2 ^ bits (n div 2) \<le> n" by linarith
    moreover have "n < 2 * 2 ^ bits (n div 2)" using ih(2) by linarith
    ultimately show ?thesis by (simp add: bn)
  qed
qed

lemma bits_pos: "0 < n \<Longrightarrow> 0 < bits n"
  by (simp add: bits.simps [of n])

lemma bits_nonpos: "n \<le> 0 \<Longrightarrow> bits n = 0"
  by (simp add: bits.simps [of n])

lemma bits_eq:
  assumes "2 ^ (k - 1) \<le> c" "c < 2 ^ k" "0 < k"
  shows "bits c = k"
proof -
  have c0: "0 < c" using assms(1) by (smt (verit) zero_less_power)
  note b = bits_bounds [OF c0]
  have "\<not> bits c < k"
  proof
    assume "bits c < k"
    then have "(2::int) ^ bits c \<le> 2 ^ (k - 1)" by (intro power_increasing) simp_all
    with b assms(1) show False by linarith
  qed
  moreover have "\<not> k < bits c"
  proof
    assume "k < bits c"
    then have "(2::int) ^ k \<le> 2 ^ (bits c - 1)" by (intro power_increasing) simp_all
    with b assms(2) show False by linarith
  qed
  ultimately show ?thesis by simp
qed

lemma bits_mono: "a \<le> b \<Longrightarrow> bits a \<le> bits b"
proof (rule ccontr)
  assume le: "a \<le> b" and "\<not> bits a \<le> bits b"
  then have lt: "bits b < bits a" by simp
  then have a0: "0 < a" by (cases "0 < a") (simp_all add: bits_nonpos)
  with le have b0: "0 < b" by simp
  have "b < 2 ^ bits b" using bits_bounds [OF b0] by simp
  also have "(2::int) ^ bits b \<le> 2 ^ (bits a - 1)" using lt by (intro power_increasing) simp_all
  also have "\<dots> \<le> a" using bits_bounds [OF a0] by simp
  finally show False using le by simp
qed

lemma div_ge: "0 < q \<Longrightarrow> p * q \<le> a \<Longrightarrow> p \<le> a div (q::int)"
  using zdiv_mono1 by fastforce

lemma div_mult_le_int: "0 < q \<Longrightarrow> (a div q) * q \<le> (a::int)"
proof -
  assume "0 < q"
  then have "0 \<le> a mod q" by simp
  moreover have "(a div q) * q + a mod q = a" by simp
  ultimately show ?thesis by linarith
qed

lemma div_lt: assumes "0 < q" "a < p * q" shows "a div (q::int) < p"
proof (rule ccontr)
  assume "\<not> a div q < p"
  then have "p * q \<le> (a div q) * q" using assms(1) by (simp add: mult_right_mono)
  with div_mult_le_int [OF assms(1), of a] assms(2) show False by linarith
qed

lemma ulp_pos: "0 < ulp a"
  by (simp add: ulp_def)

lemma ulp_small: "bits a \<le> 53 \<Longrightarrow> ulp a = 1"
  by (simp add: ulp_def)

lemma roundMag_small: "bits a \<le> 53 \<Longrightarrow> roundMag a = a"
  by (simp add: roundMag_def ulp_small)

lemma roundMag_between:
  "(a div ulp a) * ulp a \<le> roundMag a \<and> roundMag a \<le> (a div ulp a + 1) * ulp a"
  using ulp_pos [of a] by (auto simp: roundMag_def Let_def algebra_simps)

lemma ulp_large:
  assumes "53 < bits a"
  shows "2 ^ (bits a - 1) = 2 ^ 52 * ulp a" and "2 ^ bits a = 2 ^ 53 * ulp a"
proof -
  have "bits a - 1 = 52 + (bits a - 53)" "bits a = 53 + (bits a - 53)" using assms by simp_all
  then show "2 ^ (bits a - 1) = 2 ^ 52 * ulp a" "2 ^ bits a = 2 ^ 53 * ulp a"
    unfolding ulp_def by (metis power_add)+
qed

lemma roundMag_lower: assumes "0 < a" shows "2 ^ (bits a - 1) \<le> roundMag a"
proof (cases "bits a \<le> 53")
  case True
  with bits_bounds [OF assms] show ?thesis by (simp add: roundMag_small)
next
  case False
  then have l: "53 < bits a" by simp
  have "2 ^ 52 * ulp a \<le> a" using bits_bounds [OF assms] ulp_large(1) [OF l] by simp
  then have "2 ^ 52 \<le> a div ulp a" by (rule div_ge [OF ulp_pos])
  then have "2 ^ 52 * ulp a \<le> (a div ulp a) * ulp a"
    using ulp_pos [of a] by (intro mult_right_mono) simp_all
  also have "\<dots> \<le> roundMag a" using roundMag_between [of a] by simp
  finally show ?thesis unfolding ulp_large(1) [OF l] .
qed

lemma roundMag_upper: assumes "0 \<le> a" shows "roundMag a \<le> 2 ^ bits a"
proof (cases "bits a \<le> 53")
  case True
  show ?thesis
  proof (cases "a = 0")
    case True
    then show ?thesis by (simp add: roundMag_small bits_nonpos)
  next
    case False
    with assms bits_bounds [of a] True show ?thesis by (simp add: roundMag_small)
  qed
next
  case False
  then have l: "53 < bits a" by simp
  with assms have a0: "0 < a" by (cases "a = 0") (simp_all add: bits_nonpos)
  have "a < 2 ^ 53 * ulp a" using bits_bounds [OF a0] ulp_large(2) [OF l] by simp
  then have "a div ulp a < 2 ^ 53" by (rule div_lt [OF ulp_pos])
  then have "a div ulp a + 1 \<le> 2 ^ 53" by simp
  then have "(a div ulp a + 1) * ulp a \<le> 2 ^ 53 * ulp a"
    using ulp_pos [of a] by (intro mult_right_mono) simp_all
  with roundMag_between [of a] have "roundMag a \<le> 2 ^ 53 * ulp a" by linarith
  then show ?thesis unfolding ulp_large(2) [OF l] .
qed

lemma roundMag_nonneg: "0 \<le> a \<Longrightarrow> 0 \<le> roundMag a"
proof -
  assume "0 \<le> a"
  then have "0 \<le> a div ulp a" using ulp_pos [of a] by (simp add: pos_imp_zdiv_nonneg_iff)
  then have "0 \<le> (a div ulp a) * ulp a" using ulp_pos [of a] by simp
  with roundMag_between [of a] show ?thesis by linarith
qed

lemma roundMag_mono_same:
  assumes "ulp a = ulp b" "a \<le> b"
  shows "roundMag a \<le> roundMag b"
proof -
  define q where "q = ulp b"
  have q: "0 < q" "ulp a = q" "ulp b = q" using assms(1) ulp_pos [of b] by (simp_all add: q_def)
  have m: "a div q \<le> b div q" using assms(2) q(1) by (simp add: zdiv_mono1)
  show ?thesis
  proof (cases "a div q = b div q")
    case True
    have ra: "a mod q = a - (a div q) * q" "b mod q = b - (b div q) * q"
      by (simp_all add: minus_div_mult_eq_mod)
    then have "a mod q \<le> b mod q" using True assms(2) by simp
    then show ?thesis
      unfolding roundMag_def q Let_def using True q(1) by (auto simp: algebra_simps)
  next
    case False
    with m have "a div q + 1 \<le> b div q" by simp
    then have "(a div q + 1) * q \<le> (b div q) * q" using q(1) by (intro mult_right_mono) simp_all
    with roundMag_between [of a] roundMag_between [of b] show ?thesis unfolding q by linarith
  qed
qed

lemma roundMag_mono: assumes "0 \<le> a" "a \<le> b" shows "roundMag a \<le> roundMag b"
proof (cases "bits a = bits b")
  case True
  then have "ulp a = ulp b" by (simp add: ulp_def)
  then show ?thesis using assms(2) by (rule roundMag_mono_same)
next
  case False
  with bits_mono [OF assms(2)] have lt: "bits a < bits b" by simp
  then have b0: "0 < b" by (cases "0 < b") (simp_all add: bits_nonpos)
  have "roundMag a \<le> 2 ^ bits a" using assms(1) by (rule roundMag_upper)
  also have "(2::int) ^ bits a \<le> 2 ^ (bits b - 1)" using lt by (intro power_increasing) simp_all
  also have "\<dots> \<le> roundMag b" using b0 by (rule roundMag_lower)
  finally show ?thesis .
qed

lemma roundMag_fixed: assumes "ulp c dvd c" shows "roundMag c = c"
proof -
  from assms have "c mod ulp c = 0" "c div ulp c * ulp c = c" by simp_all
  then show ?thesis using ulp_pos [of c] by (simp add: roundMag_def Let_def)
qed

lemma roundMag_multiple: "ulp a dvd roundMag a"
  by (simp add: roundMag_def Let_def)

lemma roundMag_idem: assumes "0 \<le> a" shows "roundMag (roundMag a) = roundMag a"
proof (cases "bits a \<le> 53")
  case True
  then show ?thesis by (simp add: roundMag_small)
next
  case False
  then have l: "53 < bits a" by simp
  with assms have a0: "0 < a" by (cases "a = 0") (simp_all add: bits_nonpos)
  define c where "c = roundMag a"
  have lo: "2 ^ (bits a - 1) \<le> c" unfolding c_def using a0 by (rule roundMag_lower)
  have hi: "c \<le> 2 ^ bits a" unfolding c_def using assms by (rule roundMag_upper)
  have dv: "ulp a dvd c" unfolding c_def by (rule roundMag_multiple)
  have "ulp c dvd c"
  proof (cases "c = 2 ^ bits a")
    case True
    have "bits c = Suc (bits a)" by (rule bits_eq) (simp_all add: True)
    then have "ulp c = 2 ^ (bits a - 52)" using l by (simp add: ulp_def Suc_diff_le)
    then show ?thesis unfolding True by (simp add: le_imp_power_dvd)
  next
    case False
    with hi have "c < 2 ^ bits a" by simp
    with lo have "bits c = bits a" using l by (intro bits_eq) simp_all
    with dv show ?thesis by (simp add: ulp_def)
  qed
  then show ?thesis unfolding c_def [symmetric] by (rule roundMag_fixed)
qed

lemma roundMag_exact: assumes "0 \<le> a" "a \<le> 2 ^ 53" shows "roundMag a = a"
proof (cases "a = 2 ^ 53")
  case True
  have "bits a = 54" unfolding True by (rule bits_eq) simp_all
  then have "ulp a = 2" by (simp add: ulp_def)
  then show ?thesis unfolding roundMag_def Let_def by (simp add: True)
next
  case False
  show ?thesis
  proof (cases "a = 0")
    case True
    then show ?thesis by (simp add: roundMag_small bits_nonpos)
  next
    case nz: False
    with assms have a0: "0 < a" by simp
    have "\<not> 53 < bits a"
    proof
      assume "53 < bits a"
      then have "(2::int) ^ 53 \<le> 2 ^ (bits a - 1)" by (intro power_increasing) simp_all
      with bits_bounds [OF a0] assms(2) False show False by linarith
    qed
    then show ?thesis by (simp add: roundMag_small)
  qed
qed

lemma fl_alt: "fl x = (if x < 0 then - roundMag (- x) else roundMag x)"
  unfolding fl_def by (auto simp: roundMag_exact)

lemma fl_exact: "- (2 ^ 53) \<le> x \<Longrightarrow> x \<le> 2 ^ 53 \<Longrightarrow> fl x = x"
  by (simp add: fl_def)

lemma fl_0 [simp]: "fl 0 = 0"
  by (simp add: fl_def)

lemma fl_mono: "x \<le> y \<Longrightarrow> fl x \<le> fl y"
  unfolding fl_alt
  using roundMag_mono [of x y] roundMag_mono [of "- y" "- x"]
    roundMag_nonneg [of y] roundMag_nonneg [of "- x"]
  by auto

lemma fl_idem [simp]: "fl (fl x) = fl x"
proof (cases "x < 0")
  case True
  then have n: "0 \<le> - x" by simp
  have "0 \<le> roundMag (- x)" using n by (rule roundMag_nonneg)
  then show ?thesis
    unfolding fl_alt using True roundMag_idem [OF n]
    by (cases "roundMag (- x) = 0") auto
next
  case False
  then have n: "0 \<le> x" by simp
  have "0 \<le> roundMag x" using n by (rule roundMag_nonneg)
  then show ?thesis
    unfolding fl_alt using False roundMag_idem [OF n] by auto
qed

lemma fl_nonneg: "0 \<le> x \<Longrightarrow> 0 \<le> fl x"
  using fl_mono [of 0 x] by simp

section \<open>Properties of the frame and of the display\<close>

lemma scanRolls_Nil: "scanRolls vfs nof [] 0 [] = []"
  by (simp add: scanRolls.simps)

lemma emptyFrame_fields:
  "isFirstRollStrike (new_ScoringFrame None None None l s vfs) = False"
  "isSecondRollSpare (new_ScoringFrame None None None l s vfs) = False"
  "isSecondRollStrike (new_ScoringFrame None None None l s vfs) = False"
  "isThirdRollSpare (new_ScoringFrame None None None l s vfs) = False"
  "isThirdRollStrike (new_ScoringFrame None None None l s vfs) = False"
  "isComplete (new_ScoringFrame None None None l s vfs) = False"
  "roll1 (new_ScoringFrame None None None l s vfs) = None"
  "roll2 (new_ScoringFrame None None None l s vfs) = None"
  "roll3 (new_ScoringFrame None None None l s vfs) = None"
  by (simp_all add: new_ScoringFrame_def Let_def)

lemma emptyFrame_display:
  "slot1 (new_DisplayFrame (new_ScoringFrame None None None l s vfs) a b c) = ''''"
  "slot2 (new_DisplayFrame (new_ScoringFrame None None None l s vfs) a b c) = ''''"
  "slot3 (new_DisplayFrame (new_ScoringFrame None None None l s vfs) a b c) = ''''"
  "score (new_DisplayFrame (new_ScoringFrame None None None l s vfs) a b c) = ''''"
  by (simp_all add: new_DisplayFrame_def emptyFrame_fields Let_def split: prod.splits)

text \<open>
  C5, as the code has it. A frame whose first roll is a strike is complete exactly when
  both of its look-ahead rolls are present, in the last frame and before it. Built while
  a look-ahead roll is still absent, it is incomplete (its score is not known yet).
\<close>

theorem strike_frame_complete_iff:
  "isComplete (new_ScoringFrame (Some vfs) r2 r3 isLast supporting vfs)
     = (r2 \<noteq> None \<and> r3 \<noteq> None)"
  by (auto simp: new_ScoringFrame_def Let_def)

text \<open>
  C5, as it is stated, fails: with 10 pins, the non-last frame built from a strike and
  no further roll has a first-roll strike and is not complete.
\<close>

theorem strike_frame_incomplete_counterexample:
  "isFirstRollStrike (new_ScoringFrame (Some 10) None None False 0 10)
   \<and> \<not> isLastFrame (new_ScoringFrame (Some 10) None None False 0 10)
   \<and> \<not> isComplete (new_ScoringFrame (Some 10) None None False 0 10)"
  by (simp add: new_ScoringFrame_def Let_def)

text \<open>
  C8. In a frame that is not the last, a first-roll strike leaves the first slot empty
  and puts the strike character in the second slot. A slot that shows a roll as a number
  (no strike or spare mark takes the slot) shows the zero character for a roll of 0:
  slots 1 and 2 of every frame and slot 3 of the last frame.
\<close>

theorem display_strike_and_zero:
  "(\<not> isLastFrame sf \<and> isFirstRollStrike sf \<longrightarrow>
      slot1 (new_DisplayFrame sf strikeD spareD zeroD) = ''''
      \<and> slot2 (new_DisplayFrame sf strikeD spareD zeroD) = orDefault strikeD ''X'')
   \<and> (roll1 sf = Some 0 \<and> \<not> isFirstRollStrike sf \<longrightarrow>
      slot1 (new_DisplayFrame sf strikeD spareD zeroD) = orDefault zeroD ''-'')
   \<and> (roll2 sf = Some 0 \<and> \<not> isLastFrame sf \<and> \<not> isFirstRollStrike sf
        \<and> \<not> isSecondRollSpare sf \<longrightarrow>
      slot2 (new_DisplayFrame sf strikeD spareD zeroD) = orDefault zeroD ''-'')
   \<and> (roll2 sf = Some 0 \<and> isLastFrame sf \<and> \<not> isSecondRollStrike sf
        \<and> \<not> isSecondRollSpare sf \<longrightarrow>
      slot2 (new_DisplayFrame sf strikeD spareD zeroD) = orDefault zeroD ''-'')
   \<and> (roll3 sf = Some 0 \<and> isLastFrame sf \<and> \<not> isThirdRollStrike sf
        \<and> \<not> isThirdRollSpare sf \<longrightarrow>
      slot3 (new_DisplayFrame sf strikeD spareD zeroD) = orDefault zeroD ''-'')"
  by (simp add: new_DisplayFrame_def Let_def)

text \<open>
  The three instances of C8 on frames of a 10-pin game: the non-last strike frame
  (10, 0, 0), the non-last open frame (0, 0) and the last frame (10, 0, 0).
\<close>

theorem display_strike_and_zero_witness:
  "\<not> isLastFrame (new_ScoringFrame (Some 10) (Some 0) (Some 0) False 0 10)
   \<and> isFirstRollStrike (new_ScoringFrame (Some 10) (Some 0) (Some 0) False 0 10)
   \<and> slot1 (new_DisplayFrame (new_ScoringFrame (Some 10) (Some 0) (Some 0) False 0 10)
              None None None) = ''''
   \<and> slot2 (new_DisplayFrame (new_ScoringFrame (Some 10) (Some 0) (Some 0) False 0 10)
              None None None) = ''X''
   \<and> roll1 (new_ScoringFrame (Some 0) (Some 0) None False 0 10) = Some 0
   \<and> roll2 (new_ScoringFrame (Some 0) (Some 0) None False 0 10) = Some 0
   \<and> slot1 (new_DisplayFrame (new_ScoringFrame (Some 0) (Some 0) None False 0 10)
              None None None) = ''-''
   \<and> slot2 (new_DisplayFrame (new_ScoringFrame (Some 0) (Some 0) None False 0 10)
              None None None) = ''-''
   \<and> isLastFrame (new_ScoringFrame (Some 10) (Some 0) (Some 0) True 0 10)
   \<and> roll2 (new_ScoringFrame (Some 10) (Some 0) (Some 0) True 0 10) = Some 0
   \<and> roll3 (new_ScoringFrame (Some 10) (Some 0) (Some 0) True 0 10) = Some 0
   \<and> slot2 (new_DisplayFrame (new_ScoringFrame (Some 10) (Some 0) (Some 0) True 0 10)
              None None None) = ''-''
   \<and> slot3 (new_DisplayFrame (new_ScoringFrame (Some 10) (Some 0) (Some 0) True 0 10)
              None None None) = ''-''"
  using display_strike_and_zero
          [of "new_ScoringFrame (Some 10) (Some 0) (Some 0) False 0 10" None None None]
        display_strike_and_zero
          [of "new_ScoringFrame (Some 0) (Some 0) None False 0 10" None None None]
        display_strike_and_zero
          [of "new_ScoringFrame (Some 10) (Some 0) (Some 0) True 0 10" None None None]
  by (simp add: new_ScoringFrame_def Let_def numAdd_def)

text \<open>
  With any pin count other than 0, a roll of 0 is never a strike and never completes a
  spare (the rolls being doubles), so no mark takes the slot of a zero roll.
\<close>

lemma zero_roll_is_no_mark:
  assumes "vfs \<noteq> 0" and "fl (toNumber r1) = toNumber r1" and "fl (toNumber r2) = toNumber r2"
  shows "r1 = Some 0 \<Longrightarrow> \<not> isFirstRollStrike (new_ScoringFrame r1 r2 r3 l s vfs)"
    and "r2 = Some 0 \<Longrightarrow> \<not> isSecondRollStrike (new_ScoringFrame r1 r2 r3 l s vfs)
                          \<and> \<not> isSecondRollSpare (new_ScoringFrame r1 r2 r3 l s vfs)"
    and "r3 = Some 0 \<Longrightarrow> \<not> isThirdRollStrike (new_ScoringFrame r1 r2 r3 l s vfs)
                          \<and> \<not> isThirdRollSpare (new_ScoringFrame r1 r2 r3 l s vfs)"
  using assms by (auto simp: new_ScoringFrame_def Let_def numAdd_def)

section \<open>Properties of the frame list\<close>

text \<open>
  C4, as the code has it. The remaining pins of a frame list are: the full pin count if
  there is no frame; 0 if there are exactly numberOfFrames frames and the last one is
  complete; the full pin count if the last frame is complete and the number of frames is
  any other (fewer, or more when the rolls overrun the game); and otherwise the remaining
  pins of the last frame.
\<close>

theorem remainingPins_cases:
  "ScoringFrameList.remainingPins (new_ScoringFrameList rs vfs nof) =
     (if scoringFrames (new_ScoringFrameList rs vfs nof) = [] then vfs
      else if int (length (scoringFrames (new_ScoringFrameList rs vfs nof))) = nof
              \<and> isComplete (last (scoringFrames (new_ScoringFrameList rs vfs nof))) then 0
      else if isComplete (last (scoringFrames (new_ScoringFrameList rs vfs nof))) then vfs
      else ScoringFrame.remainingPins (last (scoringFrames (new_ScoringFrameList rs vfs nof))))"
  by (simp add: new_ScoringFrameList_def Let_def)

text \<open>
  C4, as it is stated, fails on the rolls 6, 7, 1 of a one-frame game of 10 pins. The
  scan builds the incomplete last frame (6) and then, past the game, the complete frame
  (7, 1): two frames, the last one complete. The claim's first three cases do not apply, so
  it gives the last frame's own remaining pins, 3; the code gives 10.
\<close>

theorem remainingPins_overrun_counterexample:
  "length (scoringFrames (new_ScoringFrameList [6, 7, 1] 10 1)) = 2
   \<and> roll1 (last (scoringFrames (new_ScoringFrameList [6, 7, 1] 10 1))) = Some 7
   \<and> roll2 (last (scoringFrames (new_ScoringFrameList [6, 7, 1] 10 1))) = Some 1
   \<and> isComplete (last (scoringFrames (new_ScoringFrameList [6, 7, 1] 10 1)))
   \<and> ScoringFrame.remainingPins (last (scoringFrames (new_ScoringFrameList [6, 7, 1] 10 1))) = 3
   \<and> remainingPins_as_claimed 10 1 (scoringFrames (new_ScoringFrameList [6, 7, 1] 10 1)) = 3
   \<and> ScoringFrameList.remainingPins (new_ScoringFrameList [6, 7, 1] 10 1) = 10"
  by code_simp

section \<open>Properties of the game\<close>

text \<open>
  C1. In a game of 10 frames of 10 pins, each of twelve rolls of 10 is accepted by
  \<open>addRoll\<close>, which returns 10; the history is then the twelve rolls; the ten frames
  have the running scores 30, 60, ..., 300, the last one 300; the remaining pins are 10
  at the start and after each of the first eleven rolls, and 0 after the twelfth, when the
  game is over.
\<close>

theorem perfect_game:
  "map (\<lambda>k. map_option fst (addRoll (session (new_Game (Some 10) (Some 10) None None None)
                                        (replicate k (AddRoll (Num 10)))) (JFinite 10))) [0..<12]
     = replicate 12 (Some (Inr 10))
   \<and> rolls (session (new_Game (Some 10) (Some 10) None None None)
               (replicate 12 (AddRoll (Num 10)))) = replicate 12 10
   \<and> map runningScore (scoringFrames (fst (processRollsToScoringFrames
        (session (new_Game (Some 10) (Some 10) None None None)
           (replicate 12 (AddRoll (Num 10)))))))
     = [30, 60, 90, 120, 150, 180, 210, 240, 270, 300]
   \<and> runningScore (last (scoringFrames (fst (processRollsToScoringFrames
        (session (new_Game (Some 10) (Some 10) None None None)
           (replicate 12 (AddRoll (Num 10)))))))) = 300
   \<and> map (\<lambda>k. Game.remainingPins (session (new_Game (Some 10) (Some 10) None None None)
                                    (replicate k (AddRoll (Num 10))))) [0..<13]
     = [10, 10, 10, 10, 10, 10, 10, 10, 10, 10, 10, 10, 0]
   \<and> isGameOver (session (new_Game (Some 10) (Some 10) None None None)
                    (replicate 12 (AddRoll (Num 10))))"
  by code_simp




text \<open>
  C6. In a default game, after the rolls 5, 5, 3 (all accepted) frame 1 is a spare frame,
  complete, with running score 13, and its display score is "13"; after the rolls 5, 5
  frame 1 is not complete and its display score is empty.
\<close>

theorem spare_then_three:
  "rolls (session (new_Game None None None None None)
            [AddRoll (Num 5), AddRoll (Num 5), AddRoll (Num 3)]) = [5, 5, 3]
   \<and> isSecondRollSpare (hd (scoringFrames (new_ScoringFrameList [5, 5, 3] 10 10)))
   \<and> isComplete (hd (scoringFrames (new_ScoringFrameList [5, 5, 3] 10 10)))
   \<and> runningScore (hd (scoringFrames (new_ScoringFrameList [5, 5, 3] 10 10))) = 13
   \<and> score (hd (displayFrames (fst (processRolls
        (session (new_Game None None None None None)
           [AddRoll (Num 5), AddRoll (Num 5), AddRoll (Num 3)]))))) = ''13''
   \<and> rolls (session (new_Game None None None None None)
               [AddRoll (Num 5), AddRoll (Num 5)]) = [5, 5]
   \<and> \<not> isComplete (hd (scoringFrames (new_ScoringFrameList [5, 5] 10 10)))
   \<and> score (hd (displayFrames (fst (processRolls
        (session (new_Game None None None None None)
           [AddRoll (Num 5), AddRoll (Num 5)]))))) = ''''"
  by code_simp

text \<open>
  C7. \<open>newGame\<close> empties the history, sets the remaining pins to the configured strike
  value and clears the game-over flag. \<open>processRolls\<close> then returns numberOfFrames
  display frames (none for a negative numberOfFrames), each with three empty slots and an
  empty score.
\<close>

theorem newGame_processRolls:
  "rolls (newGame g) = []
   \<and> Game.remainingPins (newGame g) = Game.valueForStrike g
   \<and> \<not> isGameOver (newGame g)
   \<and> map (\<lambda>df. (slot1 df, slot2 df, slot3 df, score df))
         (displayFrames (fst (processRolls (newGame g))))
     = replicate (nat (Game.numberOfFrames g)) ('''', '''', '''', '''')"
  by (simp add: newGame_def processRolls_def processRollsToScoringFrames_def
      new_ScoringFrameList_def new_DisplayFrameList_def scanRolls_Nil emptyFrame_display
      Let_def map_replicate_const comp_def)

section \<open>Properties of the random roller\<close>

text \<open>
  C9 holds for every value but \<open>NaN\<close>: a value that is not a number, an infinity and a
  finite number below 0 or above 1 are refused and leave the roller as it was, and a finite
  number from 0 to 1 is stored.
\<close>

lemma setter_rejects:
  "\<not> typeofNumber v \<or> v = JInfinity b \<or> (\<exists>q. v = JFinite q \<and> (q < 0 \<or> 1 < q))
   \<Longrightarrow> isl (fst (setPctToHitRemainingPins r v)) \<and> snd (setPctToHitRemainingPins r v) = r"
  by (cases v; cases b) (auto simp: setPctToHitRemainingPins_def)

lemma setter_stores:
  "0 \<le> q \<Longrightarrow> q \<le> 1
   \<Longrightarrow> setPctToHitRemainingPins r (JFinite q)
       = (Inr (), r\<lparr> pctToHitRemainingPins := JFinite q \<rparr>)"
  by (simp add: setPctToHitRemainingPins_def)

text \<open>
  C9 at \<open>NaN\<close>: \<open>typeof NaN\<close> is \<open>'number'\<close> and both \<open>NaN < 0\<close> and
  \<open>NaN > 1\<close> are false, so the setter throws nothing and stores \<open>NaN\<close> over the
  ability 1/2 that was there.
\<close>

theorem setter_stores_NaN:
  "setPctToHitRemainingPins \<lparr> pctToHitRemainingPins = JFinite (1 / 2) \<rparr> JNaN
     = (Inr (), \<lparr> pctToHitRemainingPins = JNaN \<rparr>)"
  by (simp add: setPctToHitRemainingPins_def)

section \<open>The loop and the scan by the rolls that remain\<close>

lemma numAdd_exact: "- (2 ^ 53) \<le> a + b \<Longrightarrow> a + b \<le> 2 ^ 53 \<Longrightarrow> numAdd a b = a + b"
  by (simp add: numAdd_def fl_exact)

lemma numSub_exact: "- (2 ^ 53) \<le> a - b \<Longrightarrow> a - b \<le> 2 ^ 53 \<Longrightarrow> numSub a b = a - b"
  by (simp add: numSub_def fl_exact)

lemma numSub_range:
  "fl v = v \<Longrightarrow> 0 \<le> x \<Longrightarrow> x \<le> v \<Longrightarrow> 0 \<le> numSub v x \<and> numSub v x \<le> v"
  using fl_mono [of 0 "v - x"] fl_mono [of "v - x" v] by (simp add: numSub_def)

lemma frame_fields [simp]:
  "roll1 (new_ScoringFrame r1 r2 r3 l s v) = r1"
  "roll2 (new_ScoringFrame r1 r2 r3 l s v) = r2"
  "scoreForFrame (new_ScoringFrame r1 r2 r3 l s v)
     = numAdd (numAdd (toNumber r1) (toNumber r2)) (toNumber r3)"
  "runningScore (new_ScoringFrame r1 r2 r3 l s v)
     = numAdd s (numAdd (numAdd (toNumber r1) (toNumber r2)) (toNumber r3))"
  "isComplete (new_ScoringFrame (Some r) r2 r3 l s v)
     = (r2 \<noteq> None \<and> (r3 \<noteq> None \<or> (r \<noteq> v \<and> numAdd r (toNumber r2) \<noteq> v)))"
  by (auto simp: new_ScoringFrame_def Let_def)

lemma frame_remainingPins [simp]:
  "ScoringFrame.remainingPins (new_ScoringFrame (Some r) None None l s v)
     = (if r = v then v else numSub v r)"
  "ScoringFrame.remainingPins (new_ScoringFrame (Some r) (Some r2) None l s v)
     = (if r = v then (if l \<and> r2 = v then v else numSub v r2)
        else if numAdd r r2 = v then v
        else if l then 0 else numSub v r)"
  by (auto simp: new_ScoringFrame_def Let_def)

lemma frame_pins_range:
  assumes "fl v = v" "0 \<le> v"
    and "0 \<le> toNumber r1" "toNumber r1 \<le> v" "0 \<le> toNumber r2" "toNumber r2 \<le> v"
  shows "0 \<le> ScoringFrame.remainingPins (new_ScoringFrame r1 r2 r3 l s v)
         \<and> ScoringFrame.remainingPins (new_ScoringFrame r1 r2 r3 l s v) \<le> v"
  using assms numSub_range [of v "toNumber r1"] numSub_range [of v "toNumber r2"]
  by (simp add: new_ScoringFrame_def Let_def)

lemma drop_as_Cons: "i < length xs \<Longrightarrow> drop i xs = xs ! i # drop (Suc i) xs"
  by (simp add: Cons_nth_drop_Suc)

lemma frameAt_step:
  assumes "i < length rs"
  shows "framesFrom vfs nof (length fs) (if fs = [] then 0 else runningScore (last fs)) (drop i rs)
         = fst (frameAt vfs nof rs i fs)
           # framesFrom vfs nof (Suc (length fs)) (runningScore (fst (frameAt vfs nof rs i fs)))
               (drop (snd (frameAt vfs nof rs i fs)) rs)"
proof (cases "Suc i < length rs")
  case False
  with assms have d: "drop i rs = [rs ! i]"
    by (simp add: drop_as_Cons)
  from False assms show ?thesis
    unfolding d by (simp add: frameAt_def Let_def)
next
  case s1: True
  show ?thesis
  proof (cases "Suc (Suc i) < length rs")
    case False
    with assms s1 have d: "drop i rs = [rs ! i, rs ! Suc i]" "drop (Suc (Suc i)) rs = []"
      "drop (Suc i) rs = [rs ! Suc i]"
      by (simp_all add: drop_as_Cons)
    from False assms s1 show ?thesis
      unfolding d(1) by (simp add: frameAt_def Let_def d)
  next
    case s2: True
    with assms s1 have d:
      "drop i rs = rs ! i # rs ! Suc i # rs ! Suc (Suc i) # drop (Suc (Suc (Suc i))) rs"
      "drop (Suc i) rs = rs ! Suc i # rs ! Suc (Suc i) # drop (Suc (Suc (Suc i))) rs"
      "drop (Suc (Suc i)) rs = rs ! Suc (Suc i) # drop (Suc (Suc (Suc i))) rs"
      by (simp_all add: drop_as_Cons)
    from assms s1 s2 show ?thesis
      unfolding d(1) by (simp add: frameAt_def Let_def d)
  qed
qed

lemma scanRolls_framesFrom:
  "scanRolls vfs nof rs i fs
     = fs @ framesFrom vfs nof (length fs) (if fs = [] then 0 else runningScore (last fs))
              (drop i rs)"
proof (induction vfs nof rs i fs rule: scanRolls.induct)
  case (1 vfs nof rs i fs)
  show ?case
  proof (cases "i < length rs")
    case False
    then show ?thesis by (simp add: scanRolls.simps)
  next
    case True
    have "scanRolls vfs nof rs i fs
          = scanRolls vfs nof rs (snd (frameAt vfs nof rs i fs)) (fs @ [fst (frameAt vfs nof rs i fs)])"
      using True by (simp add: scanRolls.simps [of vfs nof rs i fs] split: prod.splits)
    also have "\<dots> = (fs @ [fst (frameAt vfs nof rs i fs)])
                 @ framesFrom vfs nof (Suc (length fs)) (runningScore (fst (frameAt vfs nof rs i fs)))
                     (drop (snd (frameAt vfs nof rs i fs)) rs)"
      using "1.IH" [OF True prod.collapse] by simp
    also have "\<dots> = fs @ framesFrom vfs nof (length fs) (if fs = [] then 0 else runningScore (last fs))
              (drop i rs)"
      using frameAt_step [OF True, of vfs nof fs] by simp
    finally show ?thesis .
  qed
qed

lemma framesFrom_Nil_iff [simp]: "framesFrom vfs nof k s rs = [] \<longleftrightarrow> rs = []"
  by (induction vfs nof k s rs rule: framesFrom.induct) (auto simp: Let_def)

lemma pinsOf_Cons:
  "fs \<noteq> [] \<Longrightarrow> pinsOf vfs nof k (f # fs) = pinsOf vfs nof (Suc k) fs"
  by (simp add: pinsOf_def)

lemma frames_of_list:
  "scoringFrames (new_ScoringFrameList rs vfs nof) = framesFrom vfs nof 0 0 rs"
  by (simp add: new_ScoringFrameList_def Let_def scanRolls_framesFrom)

lemma pins_of_list:
  "ScoringFrameList.remainingPins (new_ScoringFrameList rs vfs nof)
     = pinsOf vfs nof 0 (framesFrom vfs nof 0 0 rs)"
  by (simp add: new_ScoringFrameList_def Let_def scanRolls_framesFrom pinsOf_def)

section \<open>Valid histories\<close>

lemma numSub_one: "- (2 ^ 53) < nof \<Longrightarrow> nof \<le> 2 ^ 53 \<Longrightarrow> numSub nof 1 = nof - 1"
  by (simp add: numSub_exact)

lemma valid_range: "valid vfs nof k rs \<Longrightarrow> list_all (\<lambda>r. 0 \<le> r \<and> r \<le> vfs) rs"
proof (induction vfs nof k rs rule: valid.induct)
  case (1 vfs nof k)
  then show ?case by simp
next
  case (2 vfs nof k r)
  then show ?case by simp
next
  case (3 vfs nof k r r2 rest)
  then show ?case
    by (cases rest) (auto split: if_splits)
qed

lemma valid_snoc:
  "valid vfs nof k rs \<Longrightarrow> vfs \<le> 2 ^ 52 \<Longrightarrow> numSub nof 1 = nof - 1
   \<Longrightarrow> 0 \<le> v \<Longrightarrow> v \<le> pinsOf vfs nof k (framesFrom vfs nof k s rs)
   \<Longrightarrow> pinsOf vfs nof k (framesFrom vfs nof k s rs) \<noteq> 0
   \<Longrightarrow> valid vfs nof k (rs @ [v])"
proof (induction vfs nof k rs arbitrary: s rule: valid.induct)
  case (1 vfs nof k)
  then show ?case by (simp add: pinsOf_def)
next
  case (2 vfs nof k r)
  then show ?case by (auto simp: pinsOf_def numSub_exact split: if_splits)
next
  case (3 vfs nof k r r2 rest)
  from valid_range [OF "3.prems"(1)]
  have rg: "0 \<le> r" "r \<le> vfs" "0 \<le> r2" "r2 \<le> vfs" by simp_all
  with "3.prems"(2) have e: "numAdd r r2 = r + r2" "numSub vfs r = vfs - r"
      "numSub vfs r2 = vfs - r2"
    by (simp_all add: numAdd_exact numSub_exact)
  note n = "3.prems"(3)
  show ?case
  proof (cases "int k = nof - 1")
    case True
    with "3.prems" show ?thesis
      by (cases rest) (auto simp: pinsOf_def Let_def e split: if_splits list.splits)
  next
    case nl: False
    show ?thesis
    proof (cases "r = vfs")
      case True
      with nl "3.prems"
        "3.IH"(1) [of "runningScore (new_ScoringFrame (Some r) (Some r2)
                        (case rest of [] \<Rightarrow> None | c # cs \<Rightarrow> Some c) False s vfs)"]
      show ?thesis by (simp add: pinsOf_Cons Let_def)
    next
      case ns: False
      show ?thesis
      proof (cases "rest = []")
        case True
        with nl ns "3.prems" show ?thesis
          by (auto simp: pinsOf_def Let_def e split: if_splits)
      next
        case False
        from ns "3.prems"(1) have le: "r + r2 \<le> vfs" by simp
        show ?thesis
        proof (cases "r + r2 = vfs")
          case True
          with False nl ns "3.prems"
            "3.IH"(2) [of "runningScore (new_ScoringFrame (Some r) (Some r2)
                            (case rest of [] \<Rightarrow> None | c # cs \<Rightarrow> Some c) False s vfs)"]
          show ?thesis by (simp add: pinsOf_Cons Let_def e)
        next
          case op: False
          with False nl ns le "3.prems"
            "3.IH"(2) [of "runningScore (new_ScoringFrame (Some r) (Some r2) None False s vfs)"]
          show ?thesis by (simp add: pinsOf_Cons Let_def e)
        qed
      qed
    qed
  qed
qed

lemma complete_needs_two_rolls:
  "f \<in> set (framesFrom vfs nof k s rs) \<Longrightarrow> isComplete f \<Longrightarrow> 2 \<le> length rs"
  by (induction vfs nof k s rs rule: framesFrom.induct) (auto simp: Let_def split: if_splits)

lemma no_complete_before_two_rolls:
  "length rs < 2 \<Longrightarrow> filter isComplete (framesFrom vfs nof k s rs) = []"
  using complete_needs_two_rolls [of _ vfs nof k s rs]
  by (auto simp: filter_empty_conv)

lemma sum3_exact:
  assumes "0 \<le> a" "a \<le> v" "0 \<le> b" "b \<le> v" "0 \<le> c" "c \<le> v" "0 \<le> s" "s + 3 * v \<le> 2 ^ 53"
  shows "numAdd a b = a + b"
    and "numAdd (a + b) c = a + b + c"
    and "numAdd s (a + b + c) = s + (a + b + c)"
proof -
  show "numAdd a b = a + b"
    by (rule numAdd_exact) (use assms in simp_all)
  show "numAdd (a + b) c = a + b + c"
    by (rule numAdd_exact) (use assms in simp_all)
  show "numAdd s (a + b + c) = s + (a + b + c)"
    by (rule numAdd_exact) (use assms in simp_all)
qed

lemma valid_decomp:
  assumes "valid vfs nof k rs" and "rs \<noteq> []" and n: "numSub nof 1 = nof - 1"
    and s: "0 \<le> s" "s + 3 * vfs \<le> 2 ^ 53"
  shows "\<exists>sf rest. framesFrom vfs nof k s rs
                      = sf # framesFrom vfs nof (Suc k) (runningScore sf) rest
           \<and> valid vfs nof (Suc k) rest \<and> length rest < length rs
           \<and> runningScore sf = s + scoreForFrame sf
           \<and> 0 \<le> scoreForFrame sf \<and> scoreForFrame sf \<le> 3 * vfs
           \<and> (isComplete sf \<or> length rest < 2)"
proof -
  note rg = valid_range [OF assms(1)]
  consider r where "rs = [r]" | r r2 rest where "rs = r # r2 # rest"
    using assms(2) by (cases rs; cases "tl rs") auto
  then show ?thesis
  proof cases
    case 1
    with rg have r: "0 \<le> r" "r \<le> vfs" by simp_all
    then have v0: "0 \<le> vfs" by simp
    note x = sum3_exact [OF r r(1) r(2) r(1) r(2) s, simplified]
      sum3_exact [OF r order_refl v0 order_refl v0 s, simplified]
    from 1 r show ?thesis
      by (intro exI [of _ "new_ScoringFrame (Some r) None None (int k = nof - 1) s vfs"]
                exI [of _ "[]"]) (simp add: n x)
  next
    case 2
    define third where "third = (case rest of [] \<Rightarrow> None | c # cs \<Rightarrow> Some c)"
    from 2 rg have r: "0 \<le> r" "r \<le> vfs" "0 \<le> r2" "r2 \<le> vfs" by simp_all
    then have v0: "0 \<le> vfs" by simp
    from 2 rg v0 have t: "0 \<le> toNumber third" "toNumber third \<le> vfs"
      unfolding third_def by (cases rest; simp)+
    have tn: "third = None \<longleftrightarrow> rest = []"
      unfolding third_def by (cases rest) simp_all
    note x = sum3_exact [OF r t s] sum3_exact [OF r order_refl v0 s, simplified]
    note f = third_def [symmetric]
    show ?thesis
    proof (cases "int k = nof - 1")
      case True
      show ?thesis
      proof (cases "r = vfs \<or> r + r2 = vfs")
        case m: True
        with True 2 assms(1) r t show ?thesis
          by (intro exI [of _ "new_ScoringFrame (Some r) (Some r2) third True s vfs"]
                    exI [of _ "[]"]) (auto simp: Let_def n x f)
      next
        case False
        with True 2 assms(1) r show ?thesis
          by (intro exI [of _ "new_ScoringFrame (Some r) (Some r2) None True s vfs"]
                    exI [of _ "[]"]) (auto simp: Let_def n x f)
      qed
    next
      case nl: False
      show ?thesis
      proof (cases "r = vfs")
        case True
        note y = x [unfolded True]
        from True nl 2 assms(1) r t show ?thesis
          by (intro exI [of _ "new_ScoringFrame (Some r) (Some r2) third False s vfs"]
                    exI [of _ "r2 # rest"]) (auto simp: Let_def n y f tn)
      next
        case ns: False
        show ?thesis
        proof (cases "r + r2 = vfs")
          case True
          with nl ns 2 assms(1) r t show ?thesis
            by (intro exI [of _ "new_ScoringFrame (Some r) (Some r2) third False s vfs"]
                      exI [of _ rest]) (auto simp: Let_def n x f tn)
        next
          case False
          with nl ns 2 assms(1) r show ?thesis
            by (intro exI [of _ "new_ScoringFrame (Some r) (Some r2) None False s vfs"]
                      exI [of _ rest]) (auto simp: Let_def n x f)
        qed
      qed
    qed
  qed
qed

section \<open>The invariants of the game\<close>

lemma framesFrom_pins_range:
  "list_all (\<lambda>r. 0 \<le> r \<and> r \<le> vfs) rs \<Longrightarrow> fl vfs = vfs \<Longrightarrow> 0 \<le> vfs
    \<Longrightarrow> list_all (\<lambda>f. 0 \<le> ScoringFrame.remainingPins f \<and> ScoringFrame.remainingPins f \<le> vfs)
          (framesFrom vfs nof k s rs)"
proof (induction vfs nof k s rs rule: framesFrom.induct)
  case (1 vfs nof k s)
  then show ?case by simp
next
  case (2 vfs nof k s r)
  then show ?case
    using frame_pins_range [of vfs "Some r" None None "int k = numSub nof 1" s]
    by (simp del: frame_remainingPins)
next
  case (3 vfs nof k s r r2 rest)
  let ?l = "int k = numSub nof 1"
  from "3.prems" have rg: "0 \<le> r" "r \<le> vfs" "0 \<le> r2" "r2 \<le> vfs"
    and tl: "list_all (\<lambda>r. 0 \<le> r \<and> r \<le> vfs) (r2 # rest)"
      "list_all (\<lambda>r. 0 \<le> r \<and> r \<le> vfs) rest"
    by simp_all
  have a: "0 \<le> ScoringFrame.remainingPins (new_ScoringFrame (Some r) (Some r2) r3 ?l s vfs)
        \<and> ScoringFrame.remainingPins (new_ScoringFrame (Some r) (Some r2) r3 ?l s vfs) \<le> vfs"
    for r3
    using "3.prems"(2,3) rg by (intro frame_pins_range) simp_all
  have b: "0 \<le> ScoringFrame.remainingPins (new_ScoringFrame (Some r) None None ?l s vfs)
        \<and> ScoringFrame.remainingPins (new_ScoringFrame (Some r) None None ?l s vfs) \<le> vfs"
    using "3.prems"(2,3) rg by (intro frame_pins_range) simp_all
  show ?case
  proof (cases "r = vfs")
    case True
    with "3.IH"(1) [OF True refl] tl "3.prems"(2,3) a show ?thesis
      by (simp add: Let_def del: frame_remainingPins)
  next
    case ns: False
    show ?thesis
    proof (cases "numAdd r r2 = vfs")
      case True
      with ns "3.IH"(2) [OF ns True refl] tl "3.prems"(2,3) a show ?thesis
        by (simp add: Let_def del: frame_remainingPins)
    next
      case nsp: False
      show ?thesis
      proof (cases "numAdd r r2 < vfs")
        case True
        with ns nsp "3.IH"(3) [OF ns nsp True refl] tl "3.prems"(2,3) a show ?thesis
          by (simp add: Let_def del: frame_remainingPins)
      next
        case False
        with ns nsp "3.IH"(4) [OF ns nsp False refl] tl "3.prems"(2,3) b show ?thesis
          by (simp add: Let_def del: frame_remainingPins)
      qed
    qed
  qed
qed

lemma pinsOf_range:
  assumes "list_all (\<lambda>r. 0 \<le> r \<and> r \<le> vfs) rs" "fl vfs = vfs" "0 \<le> vfs"
  shows "0 \<le> pinsOf vfs nof k (framesFrom vfs nof k s rs)
         \<and> pinsOf vfs nof k (framesFrom vfs nof k s rs) \<le> vfs"
proof (cases "rs = []")
  case True
  with assms show ?thesis by (simp add: pinsOf_def)
next
  case False
  then have ne: "framesFrom vfs nof k s rs \<noteq> []" by simp
  from framesFrom_pins_range [OF assms, of nof k s] last_in_set [OF ne]
  have "0 \<le> ScoringFrame.remainingPins (last (framesFrom vfs nof k s rs))
        \<and> ScoringFrame.remainingPins (last (framesFrom vfs nof k s rs)) \<le> vfs"
    by (simp add: list_all_iff)
  with assms(3) show ?thesis by (simp add: pinsOf_def)
qed

lemma rebuild_fields:
  "rolls (snd (processRollsToScoringFrames g)) = rolls g"
  "Game.valueForStrike (snd (processRollsToScoringFrames g)) = Game.valueForStrike g"
  "Game.numberOfFrames (snd (processRollsToScoringFrames g)) = Game.numberOfFrames g"
  "Game.remainingPins (snd (processRollsToScoringFrames g))
     = pinsOf (Game.valueForStrike g) (Game.numberOfFrames g) 0
         (framesFrom (Game.valueForStrike g) (Game.numberOfFrames g) 0 0 (rolls g))"
  "isGameOver (snd (processRollsToScoringFrames g))
     = (Game.remainingPins (snd (processRollsToScoringFrames g)) = 0)"
  by (simp_all add: processRollsToScoringFrames_def Let_def pins_of_list)

lemma addRollNumber_cases:
  "snd (addRollNumber g v) = g
   \<or> (\<exists>n. 0 \<le> n \<and> n \<le> Game.remainingPins g \<and> Game.remainingPins g \<noteq> 0
          \<and> snd (addRollNumber g v)
              = snd (processRollsToScoringFrames (g\<lparr> rolls := rolls g @ [n] \<rparr>)))"
  by (cases v) (auto simp: addRollNumber_def Let_def)

lemma snd_processRolls: "snd (processRolls g) = snd (processRollsToScoringFrames g)"
  by (simp add: processRolls_def split: prod.splits)

text \<open>The range of the remaining pins, whatever the size of the numbers.\<close>

lemma rangeInv_rebuild:
  assumes "fl vfs = vfs" "0 \<le> vfs" "Game.valueForStrike g = vfs"
    "list_all (\<lambda>r. 0 \<le> r \<and> r \<le> vfs) (rolls g)"
  shows "rangeInv vfs (snd (processRollsToScoringFrames g))"
  using assms pinsOf_range [OF assms(4,1,2), of "Game.numberOfFrames g" 0 0]
  by (simp add: rangeInv_def rebuild_fields)

lemma rangeInv_perform:
  assumes "fl vfs = vfs" "0 < vfs" "rangeInv vfs g"
  shows "rangeInv vfs (perform g c)"
proof (cases c)
  case (AddRoll v)
  from addRollNumber_cases [of g v] show ?thesis
  proof
    assume "snd (addRollNumber g v) = g"
    with assms(3) AddRoll show ?thesis by simp
  next
    assume "\<exists>n. 0 \<le> n \<and> n \<le> Game.remainingPins g \<and> Game.remainingPins g \<noteq> 0
          \<and> snd (addRollNumber g v)
              = snd (processRollsToScoringFrames (g\<lparr> rolls := rolls g @ [n] \<rparr>))"
    then obtain n where n: "0 \<le> n" "n \<le> Game.remainingPins g"
      and eq: "snd (addRollNumber g v)
              = snd (processRollsToScoringFrames (g\<lparr> rolls := rolls g @ [n] \<rparr>))"
      by blast
    from assms(3) n have "list_all (\<lambda>r. 0 \<le> r \<and> r \<le> vfs) (rolls g @ [n])"
      by (simp add: rangeInv_def)
    with assms have "rangeInv vfs (snd (processRollsToScoringFrames (g\<lparr> rolls := rolls g @ [n] \<rparr>)))"
      by (intro rangeInv_rebuild) (simp_all add: rangeInv_def)
    with eq AddRoll show ?thesis by simp
  qed
next
  case NewGame
  with assms show ?thesis by (simp add: rangeInv_def newGame_def)
next
  case ProcessRolls
  from assms have "rangeInv vfs (snd (processRollsToScoringFrames g))"
    by (intro rangeInv_rebuild) (simp_all add: rangeInv_def)
  with ProcessRolls show ?thesis by (simp add: snd_processRolls)
qed

lemma rangeInv_session:
  "fl vfs = vfs \<Longrightarrow> 0 < vfs \<Longrightarrow> rangeInv vfs g \<Longrightarrow> rangeInv vfs (session g calls)"
  unfolding session_def
  by (induction calls arbitrary: g) (simp_all add: rangeInv_perform)

lemma new_Game_double:
  "fl (Game.valueForStrike (new_Game vfs nof sd spd zd)) = Game.valueForStrike (new_Game vfs nof sd spd zd)"
  "fl (Game.numberOfFrames (new_Game vfs nof sd spd zd)) = Game.numberOfFrames (new_Game vfs nof sd spd zd)"
  by (simp_all add: new_Game_def fl_exact split: option.splits)

lemma rangeInv_new:
  "0 < Game.valueForStrike (new_Game vfs nof sd spd zd)
   \<Longrightarrow> rangeInv (Game.valueForStrike (new_Game vfs nof sd spd zd)) (new_Game vfs nof sd spd zd)"
  by (simp add: rangeInv_def new_Game_def)

lemma valid_complete_chain:
  "valid vfs nof k rs \<Longrightarrow> numSub nof 1 = nof - 1 \<Longrightarrow> 0 \<le> s
   \<Longrightarrow> s + 3 * vfs * int (length rs) \<le> 2 ^ 53 \<Longrightarrow>
     filter isComplete (framesFrom vfs nof k s rs) = takeWhile isComplete (framesFrom vfs nof k s rs)
     \<and> s + sum_list (map scoreForFrame (filter isComplete (framesFrom vfs nof k s rs)))
       = (if filter isComplete (framesFrom vfs nof k s rs) = [] then s
          else runningScore (last (filter isComplete (framesFrom vfs nof k s rs))))"
proof (induction rs arbitrary: k s rule: length_induct)
  case (1 rs)
  note n = "1.prems"(2) and s0 = "1.prems"(3) and bd = "1.prems"(4)
  show ?case
  proof (cases "rs = []")
    case True
    then show ?thesis by simp
  next
    case False
    from valid_range [OF "1.prems"(1)] False have v0: "0 \<le> vfs"
      by (cases rs) auto
    from False have "1 \<le> int (length rs)" by (cases rs) simp_all
    with v0 have "3 * vfs * 1 \<le> 3 * vfs * int (length rs)"
      by (intro mult_left_mono) simp_all
    with bd have s3: "s + 3 * vfs \<le> 2 ^ 53" by simp
    from valid_decomp [OF "1.prems"(1) False n s0 s3]
    obtain sf rest where
      eq: "framesFrom vfs nof k s rs = sf # framesFrom vfs nof (Suc k) (runningScore sf) rest"
      and v: "valid vfs nof (Suc k) rest" and len: "length rest < length rs"
      and run: "runningScore sf = s + scoreForFrame sf"
      and sc: "0 \<le> scoreForFrame sf" "scoreForFrame sf \<le> 3 * vfs"
      and comp: "isComplete sf \<or> length rest < 2"
      by blast
    from len have "int (length rest) \<le> int (length rs) - 1" by simp
    with v0 have "3 * vfs * int (length rest) \<le> 3 * vfs * (int (length rs) - 1)"
      by (intro mult_left_mono) simp_all
    also have "\<dots> = 3 * vfs * int (length rs) - 3 * vfs"
      by (simp add: algebra_simps)
    finally have "runningScore sf + 3 * vfs * int (length rest) \<le> 2 ^ 53"
      using bd sc run by simp
    moreover have "0 \<le> runningScore sf" using run s0 sc by simp
    ultimately have pre: "0 \<le> runningScore sf"
      "runningScore sf + 3 * vfs * int (length rest) \<le> 2 ^ 53" by simp_all
    define tl where "tl = framesFrom vfs nof (Suc k) (runningScore sf) rest"
    have ih: "filter isComplete tl = takeWhile isComplete tl
       \<and> runningScore sf + sum_list (map scoreForFrame (filter isComplete tl))
         = (if filter isComplete tl = [] then runningScore sf
            else runningScore (last (filter isComplete tl)))"
      using "1.IH" len v n pre unfolding tl_def by blast
    have none: "\<not> isComplete sf \<Longrightarrow> filter isComplete tl = []"
      using comp no_complete_before_two_rolls unfolding tl_def by blast
    show ?thesis
      unfolding eq tl_def [symmetric]
      using ih run none by (cases "isComplete sf") (auto simp: add.assoc)
  qed
qed

lemma gameInv_new:
  "gameInv (Game.valueForStrike (new_Game vfs nof sd spd zd))
           (Game.numberOfFrames (new_Game vfs nof sd spd zd)) (new_Game vfs nof sd spd zd)"
  by (simp add: gameInv_def new_Game_def pinsOf_def)

lemma gameInv_rebuild:
  "gameInv vfs nof g \<Longrightarrow> gameInv vfs nof (snd (processRollsToScoringFrames g))"
  by (simp add: gameInv_def rebuild_fields)

lemma gameInv_perform:
  assumes "gameInv vfs nof g" and b: "vfs \<le> 2 ^ 52" and n: "numSub nof 1 = nof - 1"
  shows "gameInv vfs nof (perform g c)"
proof (cases c)
  case (AddRoll v)
  from addRollNumber_cases [of g v] show ?thesis
  proof
    assume "snd (addRollNumber g v) = g"
    with assms(1) AddRoll show ?thesis by simp
  next
    assume "\<exists>n. 0 \<le> n \<and> n \<le> Game.remainingPins g \<and> Game.remainingPins g \<noteq> 0
          \<and> snd (addRollNumber g v)
              = snd (processRollsToScoringFrames (g\<lparr> rolls := rolls g @ [n] \<rparr>))"
    then obtain x where x: "0 \<le> x" "x \<le> Game.remainingPins g" "Game.remainingPins g \<noteq> 0"
      and eq: "snd (addRollNumber g v)
              = snd (processRollsToScoringFrames (g\<lparr> rolls := rolls g @ [x] \<rparr>))"
      by blast
    have "valid vfs nof 0 (rolls g @ [x])"
      using assms(1) x valid_snoc [of vfs nof 0 "rolls g" x 0, OF _ b n]
      by (simp add: gameInv_def)
    with assms(1) have "gameInv vfs nof (snd (processRollsToScoringFrames (g\<lparr> rolls := rolls g @ [x] \<rparr>)))"
      by (simp add: gameInv_def rebuild_fields)
    with eq AddRoll show ?thesis by simp
  qed
next
  case NewGame
  with assms(1) show ?thesis by (simp add: gameInv_def newGame_def pinsOf_def)
next
  case ProcessRolls
  with assms(1) show ?thesis by (simp add: snd_processRolls gameInv_rebuild)
qed

lemma gameInv_session:
  "gameInv vfs nof g \<Longrightarrow> vfs \<le> 2 ^ 52 \<Longrightarrow> numSub nof 1 = nof - 1
   \<Longrightarrow> gameInv vfs nof (session g calls)"
  unfolding session_def
  by (induction calls arbitrary: g) (simp_all add: gameInv_perform)

lemma valid_frames_bound:
  "valid vfs nof k rs \<Longrightarrow> vfs \<le> 2 ^ 52 \<Longrightarrow> numSub nof 1 = nof - 1 \<Longrightarrow> int k < nof
   \<Longrightarrow> int (k + length (framesFrom vfs nof k s rs)) \<le> nof"
proof (induction vfs nof k rs arbitrary: s rule: valid.induct)
  case (1 vfs nof k)
  then show ?case by simp
next
  case (2 vfs nof k r)
  then show ?case by simp
next
  case (3 vfs nof k r r2 rest)
  from valid_range [OF "3.prems"(1)]
  have rg: "0 \<le> r" "r \<le> vfs" "0 \<le> r2" "r2 \<le> vfs" by simp_all
  with "3.prems"(2) have e: "numAdd r r2 = r + r2"
    by (simp_all add: numAdd_exact)
  show ?case
  proof (cases "int k = nof - 1")
    case True
    with "3.prems" show ?thesis by (auto simp: Let_def e split: if_splits)
  next
    case False
    with "3.prems" have lt: "int (Suc k) < nof" by simp
    show ?thesis
    proof (cases "r = vfs")
      case True
      with False "3.prems" lt
        "3.IH"(1) [of "runningScore (new_ScoringFrame (Some r) (Some r2)
                        (case rest of [] \<Rightarrow> None | c # cs \<Rightarrow> Some c) False s vfs)"]
      show ?thesis by (simp add: Let_def)
    next
      case ns: False
      from ns "3.prems"(1) have le: "r + r2 \<le> vfs" by simp
      show ?thesis
      proof (cases "r + r2 = vfs")
        case True
        with ns False "3.prems" lt
          "3.IH"(2) [of "runningScore (new_ScoringFrame (Some r) (Some r2)
                          (case rest of [] \<Rightarrow> None | c # cs \<Rightarrow> Some c) False s vfs)"]
        show ?thesis by (simp add: Let_def e)
      next
        case op: False
        with ns le False "3.prems" lt
          "3.IH"(2) [of "runningScore (new_ScoringFrame (Some r) (Some r2) None False s vfs)"]
        show ?thesis by (simp add: Let_def e)
      qed
    qed
  qed
qed

lemma numSub_one_abs: "\<bar>nof\<bar> < 2 ^ 53 \<Longrightarrow> numSub nof 1 = nof - 1"
  by (rule numSub_one) simp_all

text \<open>
  In a game of at least one frame whose sums are exact, the remaining pins are as C4
  words them: the frame list never has more than numberOfFrames frames there.
\<close>

lemma remainingPins_as_claimed_in_game:
  assumes "0 < Game.numberOfFrames (new_Game vfs nof sd spd zd)"
    and "Game.numberOfFrames (new_Game vfs nof sd spd zd) < 2 ^ 53"
    and "Game.valueForStrike (new_Game vfs nof sd spd zd) \<le> 2 ^ 52"
  shows "remainingPins_as_claimed
           (Game.valueForStrike (session (new_Game vfs nof sd spd zd) calls))
           (Game.numberOfFrames (session (new_Game vfs nof sd spd zd) calls))
           (scoringFrames (fst (processRollsToScoringFrames
              (session (new_Game vfs nof sd spd zd) calls))))
         = ScoringFrameList.remainingPins (fst (processRollsToScoringFrames
              (session (new_Game vfs nof sd spd zd) calls)))"
proof -
  define g0 where "g0 = new_Game vfs nof sd spd zd"
  define g where "g = session g0 calls"
  have n: "numSub (Game.numberOfFrames g0) 1 = Game.numberOfFrames g0 - 1"
    using assms(1,2) unfolding g0_def by (intro numSub_one_abs) simp
  have b: "Game.valueForStrike g0 \<le> 2 ^ 52"
    using assms(3) unfolding g0_def .
  have inv: "gameInv (Game.valueForStrike g0) (Game.numberOfFrames g0) g"
    unfolding g_def g0_def
    by (rule gameInv_session [OF gameInv_new b [unfolded g0_def] n [unfolded g0_def]])
  then have cfg: "Game.valueForStrike g = Game.valueForStrike g0"
      "Game.numberOfFrames g = Game.numberOfFrames g0"
    and v: "valid (Game.valueForStrike g0) (Game.numberOfFrames g0) 0 (rolls g)"
    by (simp_all add: gameInv_def)
  from valid_frames_bound [OF v b n, of 0] assms(1)
  have "int (length (framesFrom (Game.valueForStrike g0) (Game.numberOfFrames g0) 0 0 (rolls g)))
          \<le> Game.numberOfFrames g0"
    unfolding g0_def by simp
  then show ?thesis
    unfolding g_def [symmetric] g0_def [symmetric]
    by (auto simp: processRollsToScoringFrames_def Let_def frames_of_list pins_of_list cfg
        remainingPins_as_claimed_def pinsOf_def)
qed

text \<open>
  C3, as the code has it: for a game of integer rolls whose sums are all exact. They are
  when \<open>numberOfFrames\<close> is below \<open>2^53\<close> in absolute value and three times the
  strike value times the number of rolls of the history is at most \<open>2^53\<close>. In every
  such game reached from a new game by calls of \<open>addRoll\<close> (accepted or refused),
  \<open>newGame\<close> and \<open>processRolls\<close>, so for every such roll history that \<open>addRoll\<close>
  has accepted, the complete frames of the frame list are a prefix of it, and the sum of
  their \<open>scoreForFrame\<close> is the \<open>runningScore\<close> of the last complete frame (0 when no
  frame is complete).
\<close>

theorem completed_scores_chain:
  assumes "\<bar>Game.numberOfFrames (new_Game vfs nof sd spd zd)\<bar> < 2 ^ 53"
    and "3 * Game.valueForStrike (new_Game vfs nof sd spd zd)
           * int (length (rolls (session (new_Game vfs nof sd spd zd) calls))) \<le> 2 ^ 53"
  shows "filter isComplete (scoringFrames (fst (processRollsToScoringFrames
       (session (new_Game vfs nof sd spd zd) calls))))
     = takeWhile isComplete (scoringFrames (fst (processRollsToScoringFrames
       (session (new_Game vfs nof sd spd zd) calls))))
   \<and> sum_list (map scoreForFrame (filter isComplete (scoringFrames
       (fst (processRollsToScoringFrames (session (new_Game vfs nof sd spd zd) calls))))))
     = (if filter isComplete (scoringFrames (fst (processRollsToScoringFrames
             (session (new_Game vfs nof sd spd zd) calls)))) = [] then 0
        else runningScore (last (filter isComplete (scoringFrames
             (fst (processRollsToScoringFrames
                (session (new_Game vfs nof sd spd zd) calls)))))))"
proof -
  define g0 where "g0 = new_Game vfs nof sd spd zd"
  define g where "g = session g0 calls"
  define v where "v = Game.valueForStrike g0"
  define m where "m = Game.numberOfFrames g0"
  have fs: "scoringFrames (fst (processRollsToScoringFrames g))
      = framesFrom (Game.valueForStrike g) (Game.numberOfFrames g) 0 0 (rolls g)"
    by (simp add: processRollsToScoringFrames_def Let_def frames_of_list)
  show ?thesis
  proof (cases "rolls g = []")
    case True
    show ?thesis
      unfolding g0_def [symmetric] g_def [symmetric] fs True by simp
  next
    case False
    have n: "numSub m 1 = m - 1"
      using assms(1) unfolding m_def g0_def by (rule numSub_one_abs)
    from False have l1: "1 \<le> int (length (rolls g))" by (cases "rolls g") simp_all
    have bd: "3 * v * int (length (rolls g)) \<le> 2 ^ 53"
      using assms(2) unfolding v_def g_def g0_def .
    have b: "v \<le> 2 ^ 52"
    proof (cases "0 \<le> v")
      case True
      with l1 have "3 * v * 1 \<le> 3 * v * int (length (rolls g))"
        by (intro mult_left_mono) simp_all
      with bd show ?thesis by simp
    next
      case False
      then show ?thesis by simp
    qed
    have inv: "gameInv v m g"
      unfolding g_def v_def m_def g0_def
      by (rule gameInv_session [OF gameInv_new b [unfolded v_def g0_def] n [unfolded m_def g0_def]])
    then have cfg: "Game.valueForStrike g = v" "Game.numberOfFrames g = m"
      and vl: "valid v m 0 (rolls g)"
      by (simp_all add: gameInv_def)
    have bd0: "0 + 3 * v * int (length (rolls g)) \<le> 2 ^ 53"
      using bd by simp
    note chain = valid_complete_chain [OF vl n order_refl bd0, unfolded add_0_left]
    show ?thesis
      unfolding g0_def [symmetric] g_def [symmetric] fs cfg by (rule chain)
  qed
qed

text \<open>
  C3 on a default game after a strike, the rolls 5, 5 and 3 and the refused roll 9: the
  frames (10, 5, 5) and (5, 5, 3) are complete, the frame (3) is not, and the scores 20
  and 13 of the complete frames sum to 33, the running score of the second.
\<close>

theorem completed_scores_chain_witness:
  "\<bar>Game.numberOfFrames (new_Game None None None None None)\<bar> < 2 ^ 53
   \<and> 3 * Game.valueForStrike (new_Game None None None None None)
       * int (length (rolls (session (new_Game None None None None None)
           [AddRoll (Num 10), AddRoll (Num 5), AddRoll (Num 5), AddRoll (Num 3),
            AddRoll (Num 9)]))) \<le> 2 ^ 53
   \<and> map isComplete (scoringFrames (fst (processRollsToScoringFrames
         (session (new_Game None None None None None)
           [AddRoll (Num 10), AddRoll (Num 5), AddRoll (Num 5), AddRoll (Num 3),
            AddRoll (Num 9)]))))
       = [True, True, False]
   \<and> sum_list (map scoreForFrame (filter isComplete (scoringFrames
         (fst (processRollsToScoringFrames (session (new_Game None None None None None)
           [AddRoll (Num 10), AddRoll (Num 5), AddRoll (Num 5), AddRoll (Num 3),
            AddRoll (Num 9)]))))))
       = 33
   \<and> runningScore (last (filter isComplete (scoringFrames
         (fst (processRollsToScoringFrames (session (new_Game None None None None None)
           [AddRoll (Num 10), AddRoll (Num 5), AddRoll (Num 5), AddRoll (Num 3),
            AddRoll (Num 9)])))))) = 33"
proof -
  define g where "g = session (new_Game None None None None None)
           [AddRoll (Num 10), AddRoll (Num 5), AddRoll (Num 5), AddRoll (Num 3),
            AddRoll (Num 9)]"
  have h1: "\<bar>Game.numberOfFrames (new_Game None None None None None)\<bar> < 2 ^ 53"
    by (simp add: new_Game_def)
  have r: "rolls g = [10, 5, 5, 3]"
    unfolding g_def by code_simp
  have h2: "3 * Game.valueForStrike (new_Game None None None None None)
       * int (length (rolls g)) \<le> 2 ^ 53"
    unfolding r by (simp add: new_Game_def)
  have c: "map isComplete (scoringFrames (fst (processRollsToScoringFrames g)))
       = [True, True, False]"
    unfolding g_def by code_simp
  have s: "sum_list (map scoreForFrame (filter isComplete (scoringFrames
         (fst (processRollsToScoringFrames g))))) = 33"
    unfolding g_def by code_simp
  from completed_scores_chain [OF h1 h2 [unfolded g_def]] s c
  have "runningScore (last (filter isComplete (scoringFrames
         (fst (processRollsToScoringFrames g))))) = 33"
    unfolding g_def [symmetric] by (auto split: if_splits)
  with h1 h2 c s show ?thesis
    unfolding g_def by blast
qed

text \<open>
  C3, as it is stated, fails where a sum is rounded. In a game of \<open>2^53 + 6\<close> pins the
  rolls 3, \<open>2^53 + 4\<close>, 2 and 0 are accepted: after the roll 3 the remaining pins are
  \<open>2^53 + 3\<close> rounded, that is \<open>2^53 + 4\<close>. The scan adds 3 and \<open>2^53 + 4\<close> to
  \<open>2^53 + 8\<close>, more than the pins, so the first frame holds the roll 3 alone and is
  not complete. The second frame (\<open>2^53 + 4\<close>, 2, 0) is a complete spare frame with the
  score \<open>2^53 + 6\<close> and the running score \<open>3 + (2^53 + 6)\<close> rounded, that is
  \<open>2^53 + 8\<close>. The third frame (0) is not complete. The complete frames are no prefix
  of the frame list, and their scores sum to \<open>2^53 + 6\<close>, not to the running score of
  the last of them.
\<close>

theorem completed_scores_rounding_counterexample:
  "rolls (session (new_Game (Some (2 ^ 53 + 6)) (Some 10) None None None)
       [AddRoll (Num 3), AddRoll (Num (2 ^ 53 + 4)), AddRoll (Num 2), AddRoll (Num 0)])
     = [3, 2 ^ 53 + 4, 2, 0]
   \<and> map isComplete (scoringFrames (fst (processRollsToScoringFrames
        (session (new_Game (Some (2 ^ 53 + 6)) (Some 10) None None None)
          [AddRoll (Num 3), AddRoll (Num (2 ^ 53 + 4)), AddRoll (Num 2), AddRoll (Num 0)]))))
     = [False, True, False]
   \<and> sum_list (map scoreForFrame (filter isComplete (scoringFrames
        (fst (processRollsToScoringFrames
          (session (new_Game (Some (2 ^ 53 + 6)) (Some 10) None None None)
            [AddRoll (Num 3), AddRoll (Num (2 ^ 53 + 4)), AddRoll (Num 2), AddRoll (Num 0)]))))))
     = 2 ^ 53 + 6
   \<and> runningScore (last (filter isComplete (scoringFrames
        (fst (processRollsToScoringFrames
          (session (new_Game (Some (2 ^ 53 + 6)) (Some 10) None None None)
            [AddRoll (Num 3), AddRoll (Num (2 ^ 53 + 4)), AddRoll (Num 2), AddRoll (Num 0)]))))))
     = 2 ^ 53 + 8"
  by code_simp

text \<open>
  C10, as the code has it: for a game whose \<open>valueForStrike\<close> is positive. After the
  construction and after every later call of \<open>addRoll\<close> (accepted or refused),
  \<open>newGame\<close> and \<open>processRolls\<close>, the strike value is the configured one, the remaining
  pins are from 0 to the strike value, and the game-over flag is set exactly when no pins
  remain.
\<close>

theorem game_invariant:
  assumes "0 < Game.valueForStrike (new_Game vfs nof sd spd zd)"
  shows "Game.valueForStrike (session (new_Game vfs nof sd spd zd) calls)
           = Game.valueForStrike (new_Game vfs nof sd spd zd)
         \<and> 0 \<le> Game.remainingPins (session (new_Game vfs nof sd spd zd) calls)
         \<and> Game.remainingPins (session (new_Game vfs nof sd spd zd) calls)
             \<le> Game.valueForStrike (session (new_Game vfs nof sd spd zd) calls)
         \<and> (isGameOver (session (new_Game vfs nof sd spd zd) calls)
              \<longleftrightarrow> Game.remainingPins (session (new_Game vfs nof sd spd zd) calls) = 0)"
proof -
  define g0 where "g0 = new_Game vfs nof sd spd zd"
  define g where "g = session g0 calls"
  have "rangeInv (Game.valueForStrike g0) g"
    unfolding g_def g0_def
    by (intro rangeInv_session rangeInv_new new_Game_double assms)
  then show ?thesis
    unfolding g_def [symmetric] g0_def [symmetric] by (simp add: rangeInv_def)
qed

text \<open>
  C10 on a default game after a strike, the refused rolls 11 and \<open>NaN\<close>,
  \<open>processRolls\<close> and the roll 3.
\<close>

theorem game_invariant_witness:
  "0 < Game.valueForStrike (new_Game None None None None None)
   \<and> 0 \<le> Game.remainingPins (session (new_Game None None None None None)
            [AddRoll (Num 10), AddRoll (Num 11), AddRoll NaN, ProcessRolls, AddRoll (Num 3)])
   \<and> Game.remainingPins (session (new_Game None None None None None)
            [AddRoll (Num 10), AddRoll (Num 11), AddRoll NaN, ProcessRolls, AddRoll (Num 3)])
       \<le> 10
   \<and> (isGameOver (session (new_Game None None None None None)
            [AddRoll (Num 10), AddRoll (Num 11), AddRoll NaN, ProcessRolls, AddRoll (Num 3)])
        \<longleftrightarrow> Game.remainingPins (session (new_Game None None None None None)
            [AddRoll (Num 10), AddRoll (Num 11), AddRoll NaN, ProcessRolls, AddRoll (Num 3)]) = 0)"
proof -
  have h: "0 < Game.valueForStrike (new_Game None None None None None)"
    by (simp add: new_Game_def)
  have v: "Game.valueForStrike (new_Game None None None None None) = 10"
    by (simp add: new_Game_def)
  show ?thesis
    using h game_invariant [OF h, of "[AddRoll (Num 10), AddRoll (Num 11), AddRoll NaN,
        ProcessRolls, AddRoll (Num 3)]"]
    unfolding v by simp
qed

text \<open>
  C10, as it is stated, fails for a game of 0 pins: after the construction no pins
  remain and the game-over flag is not set.
\<close>

theorem game_invariant_counterexample:
  "Game.remainingPins (new_Game (Some 0) None None None None) = 0
   \<and> \<not> isGameOver (new_Game (Some 0) None None None None)"
  by (simp add: new_Game_def)

end
